theory Spec2Isabelle
  imports Main "HOL-Library.Sublist" "HOL-Library.Multiset"
begin

section \<open>Python strings\<close>

text \<open>
  The generator vkdgen.py works on Python \<open>str\<close> values. They are modelled as
  \<^typ>\<open>string\<close>, one \<^typ>\<open>char\<close> per code point below 256 (the Vulkan registry is
  ASCII). The predicates below are Python's on that range.
\<close>

definition isspace :: "char \<Rightarrow> bool" where
  \<comment> \<open>\<open>str.isspace\<close>, also the class \<open>\s\<close> of module \<open>re\<close>\<close>
  "isspace c \<longleftrightarrow> c \<in> {CHR 0x09, CHR 0x0A, CHR 0x0B, CHR 0x0C, CHR 0x0D,
      CHR 0x1C, CHR 0x1D, CHR 0x1E, CHR 0x1F, CHR 0x20, CHR 0x85, CHR 0xA0}"

definition islinebreak :: "char \<Rightarrow> bool" where
  \<comment> \<open>the line boundaries of \<open>str.splitlines\<close>\<close>
  "islinebreak c \<longleftrightarrow> c \<in> {CHR 0x0A, CHR 0x0B, CHR 0x0C, CHR 0x0D,
      CHR 0x1C, CHR 0x1D, CHR 0x1E, CHR 0x85}"

definition rstrip :: "string \<Rightarrow> string" where
  "rstrip s = rev (dropWhile isspace (rev s))"

definition strip :: "string \<Rightarrow> string" where
  "strip s = rstrip (dropWhile isspace s)"

fun split_aux :: "string \<Rightarrow> string \<Rightarrow> string list" where
  "split_aux cur [] = (if cur = [] then [] else [cur])"
| "split_aux cur (c # cs) =
     (if isspace c then (if cur = [] then split_aux [] cs else cur # split_aux [] cs)
      else split_aux (cur @ [c]) cs)"

definition split :: "string \<Rightarrow> string list" where
  \<comment> \<open>\<open>str.split()\<close> with no separator: the maximal runs of non-whitespace\<close>
  "split s = split_aux [] s"

fun splitlines_aux :: "string \<Rightarrow> string \<Rightarrow> string list" where
  "splitlines_aux cur [] = (if cur = [] then [] else [cur])"
| "splitlines_aux cur [c] = (if islinebreak c then [cur] else [cur @ [c]])"
| "splitlines_aux cur (c # d # cs) =
     (if c = CHR 0x0D \<and> d = CHR 0x0A then cur # splitlines_aux [] cs
      else if islinebreak c then cur # splitlines_aux [] (d # cs)
      else splitlines_aux (cur @ [c]) (d # cs))"

definition splitlines :: "string \<Rightarrow> string list" where
  "splitlines s = splitlines_aux [] s"

definition join :: "string \<Rightarrow> string list \<Rightarrow> string" where
  \<comment> \<open>\<open>sep.join(xs)\<close>\<close>
  "join sep xs = (case xs of [] \<Rightarrow> [] | x # rest \<Rightarrow> x @ concat (map (\<lambda>y. sep @ y) rest))"

function replace :: "string \<Rightarrow> string \<Rightarrow> string \<Rightarrow> string" where
  \<comment> \<open>\<open>s.replace(old, new)\<close>: leftmost occurrences, not overlapping\<close>
  "replace old new s =
     (if old = [] then new @ concat (map (\<lambda>c. c # new) s)
      else if s = [] then []
      else if prefix old s then new @ replace old new (drop (length old) s)
      else hd s # replace old new (tl s))"
  by pat_completeness auto
termination
  by (relation "measure (\<lambda>(old, new, s). length s)") (auto simp: neq_Nil_conv)

declare replace.simps [simp del]

definition pystr_opt :: "string option \<Rightarrow> string" where
  \<comment> \<open>\<open>str(x)\<close> of a value that is a string or \<open>None\<close>\<close>
  "pystr_opt x = (case x of None \<Rightarrow> ''None'' | Some s \<Rightarrow> s)"

definition noneStr :: "string option \<Rightarrow> string" where
  \<comment> \<open>\<open>generator.noneStr\<close>: the string, or the empty string for \<open>None\<close>\<close>
  "noneStr x = (case x of None \<Rightarrow> [] | Some s \<Rightarrow> s)"

fun digits :: "nat \<Rightarrow> string" where
  "digits n = (if n < 10 then [char_of (48 + n)] else digits (n div 10) @ [char_of (48 + n mod 10)])"

declare digits.simps [simp del]

definition pystr_int :: "int option \<Rightarrow> string" where
  \<comment> \<open>\<open>str(x)\<close> of a value that is an integer or \<open>None\<close>\<close>
  "pystr_int x = (case x of None \<Rightarrow> ''None''
     | Some i \<Rightarrow> if i < 0 then CHR ''-'' # digits (nat (- i)) else digits (nat i))"

subsection \<open>Errors\<close>

datatype error =
    AssertionError  \<comment> \<open>\<open>assert\<close> in \<open>SourceFile.unindent\<close>\<close>
  | NameError       \<comment> \<open>a name that is not defined\<close>
  | AttributeError  \<comment> \<open>an attribute of \<open>None\<close>\<close>
  | TypeError       \<comment> \<open>\<open>re.match\<close> on \<open>None\<close>\<close>
  | IndexError      \<comment> \<open>index out of range\<close>
  | KeyError
  | FormatError     \<comment> \<open>the \<open>TypeError\<close> or \<open>ValueError\<close> that the operator \<open>%\<close> raises\<close>

definition bind_err :: "error + 'a \<Rightarrow> ('a \<Rightarrow> error + 'b) \<Rightarrow> error + 'b" where
  "bind_err x f = (case x of Inl e \<Rightarrow> Inl e | Inr v \<Rightarrow> f v)"

subsection \<open>The operator \<open>%\<close>\<close>

text \<open>
  \<open>fmt % args\<close> for a tuple \<open>args\<close> of strings. Every format literal of the program
  uses the conversion \<open>%s\<close> only; \<open>%%\<close> gives a percent sign; any other use of \<open>%\<close>
  is an error when no argument is left, which is the one case where the program formats
  a computed string (\<open>endFile\<close>, with an empty tuple). Arguments left over are an error.
\<close>

fun pyformat :: "string \<Rightarrow> string list \<Rightarrow> error + string" where
  "pyformat [] args = (if args = [] then Inr [] else Inl FormatError)"
| "pyformat [c] args =
     (if c = CHR ''%'' then Inl FormatError
      else if args = [] then Inr [c] else Inl FormatError)"
| "pyformat (c # d # cs) args =
     (if c \<noteq> CHR ''%'' then bind_err (pyformat (d # cs) args) (\<lambda>r. Inr (c # r))
      else if d = CHR ''%'' then bind_err (pyformat cs args) (\<lambda>r. Inr (CHR ''%'' # r))
      else if d = CHR ''s'' then
        (case args of [] \<Rightarrow> Inl FormatError
         | a # rest \<Rightarrow> bind_err (pyformat cs rest) (\<lambda>r. Inr (a @ r)))
      else Inl FormatError)"

section \<open>Regular expressions\<close>

text \<open>
  The three patterns of the program use literals, the class \<open>\s\<close>, the wildcard \<open>.\<close>
  (any character but a newline), the greedy quantifiers \<open>+\<close> and \<open>*\<close>, one capturing
  group \<open>(.+)\<close> and the anchor \<open>$\<close> (the end of the string, or just before a newline that
  ends it). \<open>re.match\<close> anchors at the start, where \<open>^\<close> holds. A greedy quantifier takes
  the longest run first and gives characters back one at a time.
\<close>

datatype atom = Lit char | Space | Dot

datatype item = One atom | Rep1 atom | Rep0 atom | Group1 atom | Eos

fun accepts :: "atom \<Rightarrow> char \<Rightarrow> bool" where
  "accepts (Lit c) x = (x = c)"
| "accepts Space x = isspace x"
| "accepts Dot x = (x \<noteq> CHR 0x0A)"

primrec first_down :: "(nat \<Rightarrow> 'a option) \<Rightarrow> nat \<Rightarrow> 'a option" where
  "first_down f 0 = f 0"
| "first_down f (Suc n) = (case f (Suc n) of Some r \<Rightarrow> Some r | None \<Rightarrow> first_down f n)"

primrec rmatch :: "item list \<Rightarrow> string \<Rightarrow> string option" where
  \<comment> \<open>\<open>re.match(p, s)\<close>: \<open>None\<close>, or \<open>group(1)\<close> of the match (empty when \<open>p\<close> has no group)\<close>
  "rmatch [] s = Some []"
| "rmatch (i # p) s =
     (case i of
        One a \<Rightarrow> (case s of [] \<Rightarrow> None | c # cs \<Rightarrow> if accepts a c then rmatch p cs else None)
      | Rep0 a \<Rightarrow> first_down (\<lambda>k. rmatch p (drop k s)) (length (takeWhile (accepts a) s))
      | Rep1 a \<Rightarrow> first_down (\<lambda>k. if k = 0 then None else rmatch p (drop k s))
                   (length (takeWhile (accepts a) s))
      | Group1 a \<Rightarrow> first_down (\<lambda>k. if k = 0 then None
                       else (case rmatch p (drop k s) of None \<Rightarrow> None | Some _ \<Rightarrow> Some (take k s)))
                   (length (takeWhile (accepts a) s))
      | Eos \<Rightarrow> (if s = [] \<or> s = [CHR 0x0A] then rmatch p s else None))"

definition lits :: "string \<Rightarrow> item list" where
  "lits s = map (\<lambda>c. One (Lit c)) s"

definition re_single_const :: "item list" where
  \<comment> \<open>\<^verbatim>\<open>^const\s+(.+)\*\s*$\<close>\<close>
  "re_single_const = lits ''const'' @ [Rep1 Space, Group1 Dot, One (Lit CHR ''*''), Rep0 Space, Eos]"

definition re_double_const :: "item list" where
  \<comment> \<open>\<^verbatim>\<open>^const\s+(.+)\*\s+const\*\s*$\<close>\<close>
  "re_double_const = lits ''const'' @ [Rep1 Space, Group1 Dot, One (Lit CHR ''*''), Rep1 Space]
     @ lits ''const*'' @ [Rep0 Space, Eos]"

definition re_funcptr :: "item list" where
  \<comment> \<open>\<^verbatim>\<open>^typedef (.+) \(VKAPI_PTR \*$\<close>\<close>
  "re_funcptr = lits ''typedef '' @ [Group1 Dot] @ lits '' (VKAPI_PTR *'' @ [Eos]"

section \<open>D specific utilities\<close>

definition dkeywords :: "string list" where
  "dkeywords = [''module'']"

definition convertDTypeConst :: "string \<Rightarrow> string" where
  \<comment> \<open>Converts C const syntax to D const syntax\<close>
  "convertDTypeConst typ =
     (case rmatch re_double_const typ of
        Some g \<Rightarrow> ''const('' @ g @ ''*)*''
      | None \<Rightarrow>
          (case rmatch re_single_const typ of
             Some g \<Rightarrow> ''const('' @ g @ '')*''
           | None \<Rightarrow> typ))"

section \<open>Parsed schema elements\<close>

text \<open>
  The schema front end (\<open>reg.py\<close>, \<open>generator.py\<close> and \<open>xml.etree.ElementTree\<close>, none of
  them part of this program) hands every entity over as an element tree. An element has a
  tag, attributes, the text before its first child, children, and the text after its end
  tag.
\<close>

datatype xml = Element (xtag: string) (xattrib: "(string \<times> string) list")
  (xtext: "string option") (xchildren: "xml list") (xtail: "string option")

definition get_attr :: "xml \<Rightarrow> string \<Rightarrow> string option" where
  \<comment> \<open>\<open>elem.get(key)\<close>\<close>
  "get_attr e k = map_of (xattrib e) k"

definition find_child :: "xml \<Rightarrow> string \<Rightarrow> xml option" where
  \<comment> \<open>\<open>elem.find(tag)\<close>: the first child with that tag, or \<open>None\<close>\<close>
  "find_child e t = List.find (\<lambda>c. xtag c = t) (xchildren e)"

definition findall_children :: "xml \<Rightarrow> string \<Rightarrow> xml list" where
  \<comment> \<open>\<open>elem.findall(tag)\<close>, \<open>elem.findall("./tag")\<close>: the children with that tag\<close>
  "findall_children e t = filter (\<lambda>c. xtag c = t) (xchildren e)"

fun descendants :: "xml \<Rightarrow> xml list" where
  "descendants (Element t a x ch tx) = concat (map (\<lambda>c. c # descendants c) ch)"

definition findall_descendants :: "xml \<Rightarrow> string \<Rightarrow> xml list" where
  \<comment> \<open>\<open>elem.findall(".//tag")\<close>: the descendants with that tag, in document order\<close>
  "findall_descendants e t = filter (\<lambda>c. xtag c = t) (descendants e)"

definition nonempty_text :: "string option \<Rightarrow> string list" where
  "nonempty_text x = (case x of None \<Rightarrow> [] | Some s \<Rightarrow> if s = [] then [] else [s])"

fun itertext :: "xml \<Rightarrow> string list" where
  \<comment> \<open>\<open>elem.itertext()\<close>: the non-empty text fragments in document order\<close>
  "itertext (Element t a x ch tx) =
     nonempty_text x @ concat (map (\<lambda>c. itertext c @ nonempty_text (xtail c)) ch)"

definition makePart :: "string option \<Rightarrow> string" where
  "makePart part = replace ''const'' ''const '' (strip (replace ''struct '' [] (noneStr part)))"

definition makeDParamType_typeStr :: "xml \<Rightarrow> string" where
  \<comment> \<open>the value of \<open>typeStr\<close> after the loop of \<open>makeDParamType\<close>\<close>
  "makeDParamType_typeStr param =
     fold (\<lambda>elem typeStr.
            (if xtag elem \<noteq> ''name'' then typeStr @ makePart (xtext elem) else typeStr)
              @ makePart (xtail elem))
       (xchildren param) (makePart (xtext param))"

definition makeDParamType :: "xml \<Rightarrow> string" where
  "makeDParamType param =
     convertDTypeConst (replace ''const *'' ''const*'' (makeDParamType_typeStr param))"

definition mapDName :: "string option \<Rightarrow> string option" where
  "mapDName name = (case name of None \<Rightarrow> None
     | Some n \<Rightarrow> if n \<in> set dkeywords then Some (n @ ''_'') else Some n)"

section \<open>The section buffer\<close>

text \<open>\<open>Sect.CONST\<close> is written \<open>CONST'\<close>: \<open>CONST\<close> is reserved in Isabelle's term syntax.\<close>

datatype Sect = GLOBAL_DEF | BASETYPE | CONST' | HANDLE | FUNCPTR | ENUM | STRUCT | CMD

definition Sect_members :: "Sect list" where
  \<comment> \<open>the order in which \<open>for sect in Sect\<close> runs: the order of declaration\<close>
  "Sect_members = [GLOBAL_DEF, BASETYPE, CONST', HANDLE, FUNCPTR, ENUM, STRUCT, CMD]"

record Section =
  lines :: "string list"
  indent :: nat

text \<open>
  \<open>SourceFile._sections\<close> holds one section for every member of \<open>Sect\<close>, so it is a total
  function; \<open>_section\<close> is always the object \<open>_sections[_sect]\<close>. The output file is
  the list of the strings printed to it.
\<close>

record SourceFile =
  sections :: "Sect \<Rightarrow> Section"
  sect :: Sect

definition one_indent_level :: string where
  "one_indent_level = ''    ''"

definition SourceFile_init :: SourceFile where
  "SourceFile_init = \<lparr>sections = (\<lambda>s. \<lparr>lines = [], indent = 0\<rparr>), sect = GLOBAL_DEF\<rparr>"

definition section_of :: "SourceFile \<Rightarrow> Section" where
  "section_of sf = sections sf (sect sf)"

definition set_section :: "SourceFile \<Rightarrow> Sect \<Rightarrow> SourceFile" where
  "set_section sf s = sf\<lparr>sect := s\<rparr>"

definition sf_indent :: "SourceFile \<Rightarrow> SourceFile" where
  "sf_indent sf = sf\<lparr>sections := (sections sf)
     (sect sf := (section_of sf)\<lparr>indent := indent (section_of sf) + 1\<rparr>)\<rparr>"

definition sf_unindent :: "SourceFile \<Rightarrow> error + SourceFile" where
  "sf_unindent sf =
     (if \<not> indent (section_of sf) > 0 then Inl AssertionError
      else Inr (sf\<lparr>sections := (sections sf)
        (sect sf := (section_of sf)\<lparr>indent := indent (section_of sf) - 1\<rparr>)\<rparr>))"

definition sf_call :: "SourceFile \<Rightarrow> string \<Rightarrow> string list \<Rightarrow> error + SourceFile" where
  \<comment> \<open>\<open>SourceFile.__call__(fmt, *args)\<close>\<close>
  "sf_call sf fmt args =
     (let ind = concat (replicate (indent (section_of sf)) one_indent_level)
      in bind_err (pyformat fmt args) (\<lambda>t.
           Inr (sf\<lparr>sections := (sections sf)
             (sect sf := (section_of sf)\<lparr>lines := lines (section_of sf) @ [ind @ t]\<rparr>)\<rparr>)))"

definition writeOut :: "SourceFile \<Rightarrow> string list \<Rightarrow> string list" where
  \<comment> \<open>the second argument is what the output file holds before\<close>
  "writeOut sf out =
     fold (\<lambda>s out. fold (\<lambda>line out. out @ [rstrip line]) (lines (sections sf s)) out)
       Sect_members out"

text \<open>
  The emitters are straight-line sequences of calls on the section buffer. A sequence is
  written as a list of operations and run in order; the first error ends the run, as an
  exception does.
\<close>

datatype sfop = SetSect Sect | Indent | Unindent | Line string "string list"

fun run_op :: "sfop \<Rightarrow> SourceFile \<Rightarrow> error + SourceFile" where
  "run_op (SetSect s) sf = Inr (set_section sf s)"
| "run_op Indent sf = Inr (sf_indent sf)"
| "run_op Unindent sf = sf_unindent sf"
| "run_op (Line fmt args) sf = sf_call sf fmt args"

fun run_ops :: "sfop list \<Rightarrow> SourceFile \<Rightarrow> error + SourceFile" where
  "run_ops [] sf = Inr sf"
| "run_ops (x # xs) sf = bind_err (run_op x sf) (run_ops xs)"

section \<open>The generator\<close>

text \<open>
  \<open>DGenerator.Param\<close> and \<open>DGenerator.Command\<close>; the fields carry a prefix because both
  classes have a field \<open>name\<close>. A text read from the schema may be \<open>None\<close>.
\<close>

record Param =
  p_typeStr :: string
  p_name :: "string option"

record Command =
  c_returnType :: "string option"
  c_name :: string
  c_params :: "Param list"

record DGenerator =
  moduleName :: "string option"
  sf :: SourceFile
  cmds :: "Command list"
  globalCmds :: "Command list"
  instanceCmdNames :: "string set"
  instanceCmds :: "Command list"
  deviceCmdNames :: "string set"
  deviceCmds :: "Command list"

definition basicTypes :: "(string \<times> string) list" where
  "basicTypes = [(''uint8_t'', ''ubyte''), (''uint16_t'', ''ushort''), (''uint32_t'', ''uint''),
     (''uint64_t'', ''ulong''), (''int8_t'', ''byte''), (''int16_t'', ''short''),
     (''int32_t'', ''int''), (''int64_t'', ''long'')]"

definition globalCmdNames :: "string set" where
  "globalCmdNames = {''vkGetInstanceProcAddr'', ''vkEnumerateInstanceExtensionProperties'',
     ''vkEnumerateInstanceLayerProperties'', ''vkCreateInstance''}"

definition DGenerator_init :: "string option \<Rightarrow> DGenerator" where
  \<comment> \<open>\<open>DGenerator.__init__\<close>; the section buffer is the one \<open>beginFile\<close> creates first\<close>
  "DGenerator_init m = \<lparr>moduleName = m, sf = SourceFile_init, cmds = [], globalCmds = [],
     instanceCmdNames = {}, instanceCmds = [], deviceCmdNames = {}, deviceCmds = []\<rparr>"

definition with_sf :: "DGenerator \<Rightarrow> error + SourceFile \<Rightarrow> error + DGenerator" where
  "with_sf g r = bind_err r (\<lambda>s. Inr (g\<lparr>sf := s\<rparr>))"

subsection \<open>beginFile\<close>

definition initSect :: "Sect \<Rightarrow> string \<Rightarrow> sfop list" where
  "initSect s comment = [SetSect s, Line [] [], Line ''// %s'' [comment], Line [] []]"

definition beginFile_ops :: "DGenerator \<Rightarrow> sfop list" where
  \<comment> \<open>the calls of \<open>beginFile\<close> on the fresh section buffer\<close>
  "beginFile_ops g =
      [SetSect GLOBAL_DEF,
       Line ''/// Vulkan D bindings generated by vkdgen.py for Gfx-d'' [],
       Line ''module %s;'' [pystr_opt (moduleName g)],
       Line [] [],
       Line ''// Global definitions'' [],
       Line [] [],
       Line ''enum VK_DEFINE_HANDLE(string name) = '' [],
       Indent,
       Line (''\"struct \"~name~\"_handle; alias \"~name~\" = \"~name~\"_handle*;\";'') [],
       Unindent,
       Line [] [],
       Line ''version(X86_64) {'' [],
       Indent,
       Line ''enum VK_DEFINE_NON_DISPATCHABLE_HANDLE(string name) = VK_DEFINE_HANDLE!name;'' [],
       Line ''enum VK_NULL_ND_HANDLE = null;'' [],
       Unindent,
       Line ''} else {'' [],
       Indent,
       Line (''enum VK_DEFINE_NON_DISPATCHABLE_HANDLE(string name) = \"alias \"~name~\" = ulong;\";'') [],
       Line ''enum VK_NULL_ND_HANDLE = 0;'' [],
       Unindent,
       Line ''}'' []]
      @ initSect BASETYPE ''Basic types definition''
      @ map (\<lambda>(k, v). Line ''alias %s = %s;'' [k, v]) basicTypes
      @ initSect FUNCPTR ''Fonction pointers''
      @ [Line ''extern(C) {'' [], Indent]
      @ initSect CONST' ''Constants''
      @ initSect HANDLE ''Handles''
      @ initSect ENUM ''Enumerations''
      @ initSect STRUCT ''Structures''
      @ initSect CMD ''Commands''"

definition beginFile :: "DGenerator \<Rightarrow> error + DGenerator" where
  "beginFile g = with_sf g (run_ops (beginFile_ops g) SourceFile_init)"

subsection \<open>endFile\<close>

fun endFile_params :: "string \<Rightarrow> nat \<Rightarrow> nat \<Rightarrow> nat \<Rightarrow> string \<Rightarrow> Param list \<Rightarrow> sfop list" where
  \<comment> \<open>the loop \<open>for i, p in enumerate(cmd.params)\<close>, from index \<open>i\<close> with the current \<open>lineSpace\<close>\<close>
  "endFile_params fstLine maxLen n i lineSpace [] = []"
| "endFile_params fstLine maxLen n i lineSpace (p # ps) =
     (let spacer = replicate (maxLen - length (p_typeStr p)) CHR '' '';
          endLine = (if i = n - 1 then '');'' else '','')
      in Line ''%s%s%s %s%s'' [lineSpace, p_typeStr p, spacer, pystr_opt (p_name p), endLine]
         # endFile_params fstLine maxLen n (Suc i) (replicate (length fstLine) CHR '' '') ps)"

definition endFile_cmd :: "Command \<Rightarrow> sfop list" where
  \<comment> \<open>the body of the loop \<open>for cmd in self.cmds\<close>\<close>
  "endFile_cmd cmd =
     (let maxLen = fold (\<lambda>p maxLen. max maxLen (length (p_typeStr p))) (c_params cmd) 0;
          fstLine = ''alias PFN_'' @ c_name cmd @ '' = '' @ pystr_opt (c_returnType cmd)
                      @ '' function (''
      in if length (c_params cmd) = 0 then [Line (fstLine @ '');'') []]
         else if length (c_params cmd) = 1 then
           [Line ''%s%s %s);'' [fstLine, p_typeStr (c_params cmd ! 0),
              pystr_opt (p_name (c_params cmd ! 0))]]
         else endFile_params fstLine maxLen (length (c_params cmd)) 0 fstLine (c_params cmd))"

definition endFile :: "DGenerator \<Rightarrow> error + DGenerator \<times> string list" where
  \<comment> \<open>returns the generator and what \<open>writeOut\<close> prints to the output file\<close>
  "endFile g = bind_err
     (run_ops
        ([SetSect FUNCPTR, Unindent, Line ''}'' [],
          SetSect CMD, Line ''extern(C) {'' [], Indent]
         @ concat (map endFile_cmd (cmds g))
         @ [Unindent, Line ''}'' []])
        (sf g))
     (\<lambda>s. Inr (g\<lparr>sf := s\<rparr>, writeOut s []))"

subsection \<open>genType, genStruct\<close>

fun genStruct_members :: "xml list \<Rightarrow> nat \<Rightarrow> (string \<times> string option) list
    \<Rightarrow> error + nat \<times> (string \<times> string option) list" where
  \<comment> \<open>the loop over the members: the running \<open>maxLen\<close> and \<open>members\<close>\<close>
  "genStruct_members [] maxLen members = Inr (maxLen, members)"
| "genStruct_members (member # rest) maxLen members =
     (let typeStr = makeDParamType member
      in case find_child member ''name'' of
           None \<Rightarrow> Inl AttributeError
         | Some nm \<Rightarrow> genStruct_members rest (max maxLen (length typeStr))
                        (members @ [(typeStr, mapDName (xtext nm))]))"

definition genStruct :: "DGenerator \<Rightarrow> xml \<Rightarrow> string \<Rightarrow> error + DGenerator" where
  "genStruct g typeinfo name =
     (case get_attr typeinfo ''category'' of
        None \<Rightarrow> Inl KeyError
      | Some category \<Rightarrow>
          bind_err (genStruct_members (findall_descendants typeinfo ''member'') 0 [])
            (\<lambda>(maxLen, members). with_sf g (run_ops
               ([SetSect STRUCT, Line ''%s %s {'' [category, name], Indent]
                @ map (\<lambda>member. Line ''%s%s%s;''
                    [fst member, replicate (maxLen - length (fst member) + 1) CHR '' '',
                     pystr_opt (snd member)]) members
                @ [Unindent, Line ''}'' []])
               (sf g))))"

fun genType_params :: "string list \<Rightarrow> string \<Rightarrow> error + string" where
  \<comment> \<open>the loop \<open>for line in params.splitlines()\<close> with the running \<open>concatParams\<close>;
      a line of more than two words calls \<open>convertTypeConst\<close>, a name defined nowhere\<close>
  "genType_params [] concatParams = Inr concatParams"
| "genType_params (line # rest) concatParams =
     (let lineSplit = split line
      in if length lineSplit > 2 then Inl NameError
         else genType_params rest (concatParams @ '' '' @ join '' '' lineSplit))"

definition genType :: "DGenerator \<Rightarrow> xml \<Rightarrow> string \<Rightarrow> error + DGenerator" where
  "genType g typeinfo name =
     (case get_attr typeinfo ''category'' of
        None \<Rightarrow> Inr g
      | Some category \<Rightarrow>
          if category = ''basetype'' \<or> category = ''bitmask'' then
            (case find_child typeinfo ''type'' of
               None \<Rightarrow> Inl AttributeError
             | Some t \<Rightarrow> with_sf g (run_ops
                 [SetSect BASETYPE, Line ''alias %s = %s;'' [name, pystr_opt (xtext t)]] (sf g)))
          else if category = ''handle'' then
            (case find_child typeinfo ''type'' of
               None \<Rightarrow> Inl AttributeError
             | Some t \<Rightarrow> with_sf g (run_ops
                 [SetSect HANDLE, Line ''mixin(%s!\"%s\");'' [pystr_opt (xtext t), name]] (sf g)))
          else if category = ''struct'' \<or> category = ''union'' then genStruct g typeinfo name
          else if category = ''funcpointer'' then
            (case xtext typeinfo of
               None \<Rightarrow> Inl TypeError
             | Some tx \<Rightarrow>
                (case rmatch re_funcptr tx of
                   None \<Rightarrow> Inl AttributeError
                 | Some returnType \<Rightarrow>
                     (let params = drop 2 (concat (drop 2 (itertext typeinfo)))
                      in bind_err
                           (if params = ''void);'' \<or> params = '' void );'' then Inr '');''
                            else bind_err (genType_params (splitlines params) [])
                                   (\<lambda>concatParams. Inr (drop 2 concatParams)))
                           (\<lambda>params. with_sf g (run_ops
                              [SetSect FUNCPTR,
                               Line ''alias %s = %s function(%s'' [name, returnType, params]]
                              (sf g))))))
          else Inr g)"

subsection \<open>genEnum, genGroup\<close>

text \<open>
  \<open>enumToValue\<close> belongs to the front end's base class. It is a parameter here: it gives
  the numeric value and the literal of an \<open>enum\<close> element, each of which may be \<open>None\<close>.
\<close>

type_synonym enumToValue = "xml \<Rightarrow> bool \<Rightarrow> int option \<times> string option"

definition genEnum :: "enumToValue \<Rightarrow> DGenerator \<Rightarrow> xml \<Rightarrow> string \<Rightarrow> error + DGenerator" where
  "genEnum enumToValue g enuminfo name =
     (case snd (enumToValue enuminfo False) of
        None \<Rightarrow> Inl AttributeError
      | Some strVal \<Rightarrow> with_sf g (run_ops
          [SetSect CONST',
           Line ''enum %s = %s;'' [name, replace ''0U'' ''0u'' (replace ''0ULL'' ''0uL'' strVal)]]
          (sf g)))"

fun genGroup_members :: "enumToValue \<Rightarrow> xml list \<Rightarrow> nat \<Rightarrow> (string \<times> int option) list
    \<Rightarrow> error + nat \<times> (string \<times> int option) list" where
  \<comment> \<open>the loop over the \<open>enum\<close> children: the running \<open>maxLen\<close> and \<open>members\<close>\<close>
  "genGroup_members enumToValue [] maxLen members = Inr (maxLen, members)"
| "genGroup_members enumToValue (elem # rest) maxLen members =
     (let numVal = fst (enumToValue elem True)
      in case get_attr elem ''name'' of
           None \<Rightarrow> Inl TypeError
         | Some membName \<Rightarrow> genGroup_members enumToValue rest (max maxLen (length membName))
                               (members @ [(membName, numVal)]))"

definition genGroup :: "enumToValue \<Rightarrow> DGenerator \<Rightarrow> xml \<Rightarrow> string \<Rightarrow> error + DGenerator" where
  "genGroup enumToValue g groupinfo name =
     (let repStr = (if suffix ''FlagBits'' name then '' : VkFlags'' else [])
      in bind_err (genGroup_members enumToValue (findall_children groupinfo ''enum'') 0 [])
           (\<lambda>(maxLen, members). with_sf g (run_ops
              ([SetSect ENUM, Line ''enum %s%s {'' [name, repStr], Indent]
               @ map (\<lambda>m. Line ''%s%s = %s,''
                   [fst m, replicate (maxLen - length (fst m)) CHR '' '', pystr_int (snd m)]) members
               @ [Unindent, Line ''}'' []]
               @ map (\<lambda>m. Line ''enum %s%s = %s.%s;''
                   [fst m, replicate (maxLen - length (fst m)) CHR '' '', name, fst m]) members
               @ [Line [] []])
              (sf g))))"

subsection \<open>genCmd\<close>

fun genCmd_params :: "xml list \<Rightarrow> Param list \<Rightarrow> error + Param list" where
  \<comment> \<open>the loop over the \<open>param\<close> children with the running \<open>params\<close>\<close>
  "genCmd_params [] params = Inr params"
| "genCmd_params (pElem # rest) params =
     (case find_child pElem ''name'' of
        None \<Rightarrow> Inl AttributeError
      | Some nm \<Rightarrow> genCmd_params rest
          (params @ [\<lparr>p_typeStr = makeDParamType pElem, p_name = xtext nm\<rparr>]))"

definition genCmd :: "DGenerator \<Rightarrow> xml \<Rightarrow> string \<Rightarrow> error + DGenerator" where
  "genCmd g cmdinfo name =
     (case concat (map (\<lambda>pr. findall_children pr ''type'') (findall_children cmdinfo ''proto'')) of
        [] \<Rightarrow> Inl IndexError
      | t # _ \<Rightarrow>
          (let typeStr = xtext t
           in bind_err (genCmd_params (findall_children cmdinfo ''param'') [])
                (\<lambda>params.
                   let cmd = \<lparr>c_returnType = typeStr, c_name = name, c_params = params\<rparr>;
                       g = g\<lparr>cmds := cmds g @ [cmd]\<rparr>
                   in Inr
                     (if name \<in> globalCmdNames then g\<lparr>globalCmds := globalCmds g @ [cmd]\<rparr>
                      else if length params \<noteq> 0 \<and> p_name (params ! 0)
                                \<in> {Some ''VkDevice'', Some ''VkQueue'', Some ''VkCommandBuffer''}
                      then g\<lparr>deviceCmds := deviceCmds g @ [cmd],
                             deviceCmdNames := insert name (deviceCmdNames g)\<rparr>
                      else g\<lparr>instanceCmds := instanceCmds g @ [cmd],
                             instanceCmdNames := insert name (instanceCmdNames g)\<rparr>))))"

subsection \<open>The run\<close>

fun genCmds :: "DGenerator \<Rightarrow> (xml \<times> string) list \<Rightarrow> error + DGenerator" where
  \<comment> \<open>the front end delivers the commands of a run to \<open>genCmd\<close> one after the other\<close>
  "genCmds g [] = Inr g"
| "genCmds g ((cmdinfo, name) # rest) = bind_err (genCmd g cmdinfo name) (\<lambda>g'. genCmds g' rest)"

section \<open>Specification-side definitions\<close>

fun sect_lines :: "Sect \<Rightarrow> Sect \<Rightarrow> nat \<Rightarrow> sfop list \<Rightarrow> string list" where
  \<comment> \<open>what a run of operations appends to section \<open>s\<close>, told from the operations alone: the
      run starts with section \<open>cur\<close> active and section \<open>s\<close> at depth \<open>n\<close>\<close>
  "sect_lines s cur n [] = []"
| "sect_lines s cur n (SetSect t # ops) = sect_lines s t n ops"
| "sect_lines s cur n (Indent # ops) = sect_lines s cur (if cur = s then Suc n else n) ops"
| "sect_lines s cur n (Unindent # ops) = sect_lines s cur (if cur = s then n - 1 else n) ops"
| "sect_lines s cur n (Line fmt args # ops) =
     (if cur = s then
        (case pyformat fmt args of
           Inr t \<Rightarrow> [concat (replicate n one_indent_level) @ t]
         | Inl e \<Rightarrow> [])
      else [])
     @ sect_lines s cur n ops"

definition owner_test :: "Command \<Rightarrow> bool" where
  \<comment> \<open>the test of the second branch of \<open>genCmd\<close>\<close>
  "owner_test c \<longleftrightarrow> length (c_params c) \<noteq> 0
     \<and> p_name (c_params c ! 0) \<in> {Some ''VkDevice'', Some ''VkQueue'', Some ''VkCommandBuffer''}"

definition indentation :: "nat \<Rightarrow> string" where
  \<comment> \<open>the indentation of depth \<open>d\<close>\<close>
  "indentation d = concat (replicate d one_indent_level)"

definition pad_to :: "nat \<Rightarrow> string \<Rightarrow> string" where
  \<comment> \<open>the string, padded on the right with spaces to the width \<open>w\<close>\<close>
  "pad_to w s = s @ replicate (w - length s) CHR '' ''"

definition longest :: "string list \<Rightarrow> nat" where
  \<comment> \<open>the length of the longest string of a list, 0 for the empty list\<close>
  "longest xs = Max (insert 0 (length ` set xs))"

definition put :: "Sect \<Rightarrow> nat \<Rightarrow> string list \<Rightarrow> SourceFile \<Rightarrow> SourceFile" where
  \<comment> \<open>the buffer in which section \<open>s\<close> is active, at depth \<open>d\<close>, with the lines \<open>ls\<close> appended\<close>
  "put s d ls b = b\<lparr>sect := s,
     sections := (sections b)(s := \<lparr>lines = lines (sections b s) @ ls, indent = d\<rparr>)\<rparr>"

definition alias_first_line :: "Command \<Rightarrow> string" where
  \<comment> \<open>the opening of the alias of a command: the name with the prefix \<open>PFN_\<close>, the return type\<close>
  "alias_first_line c =
     ''alias PFN_'' @ c_name c @ '' = '' @ pystr_opt (c_returnType c) @ '' function (''"

definition alias_lines :: "nat \<Rightarrow> Command \<Rightarrow> string list" where
  \<comment> \<open>the function-pointer alias of a command at depth \<open>d\<close>: one closed line for no parameter,
      one line for one parameter, and otherwise one line per parameter, the types padded to
      the longest type of the command and the lines after the first one starting in the
      column where the opening line ends\<close>
  "alias_lines d c =
     (case c_params c of
        [] \<Rightarrow> [indentation d @ alias_first_line c @ '');'']
      | [p] \<Rightarrow> [indentation d @ alias_first_line c @ p_typeStr p @ '' '' @ pystr_opt (p_name p) @ '');'']
      | ps \<Rightarrow> map (\<lambda>(i, p). indentation d
                 @ (if i = 0 then alias_first_line c
                    else replicate (length (alias_first_line c)) CHR '' '')
                 @ pad_to (longest (map p_typeStr ps)) (p_typeStr p) @ '' '' @ pystr_opt (p_name p)
                 @ (if i = length ps - 1 then '');'' else '',''))
             (enumerate 0 ps))"

definition endFile_CMD_lines :: "DGenerator \<Rightarrow> error + string list" where
  \<comment> \<open>the commands section after \<open>endFile\<close>\<close>
  "endFile_CMD_lines g = bind_err (endFile g) (\<lambda>r. Inr (lines (sections (sf (fst r)) CMD)))"

primrec occurs :: "string \<Rightarrow> string \<Rightarrow> bool" where
  \<comment> \<open>\<open>old in s\<close>: the string \<open>old\<close> occurs in \<open>s\<close>\<close>
  "occurs old [] = (old = [])"
| "occurs old (c # cs) = (prefix old (c # cs) \<or> occurs old cs)"

definition type_name :: "string \<Rightarrow> bool" where
  \<comment> \<open>a type name of the schema: not empty, without whitespace or \<open>*\<close>, and \<open>const\<close> does
      not occur in it\<close>
  "type_name T \<longleftrightarrow> T \<noteq> [] \<and> (\<forall>c\<in>set T. \<not> isspace c \<and> c \<noteq> CHR ''*'') \<and> \<not> occurs ''const'' T"

datatype suffix = Suffix64 | Suffix32

fun c_suffix :: "suffix \<Rightarrow> string" where
  \<comment> \<open>the unsigned suffixes of the schema's literals\<close>
  "c_suffix Suffix64 = ''ULL''"
| "c_suffix Suffix32 = ''U''"

fun d_suffix :: "suffix \<Rightarrow> string" where
  \<comment> \<open>the unsigned suffixes of the target grammar\<close>
  "d_suffix Suffix64 = ''uL''"
| "d_suffix Suffix32 = ''u''"

definition render :: "(suffix \<Rightarrow> string) \<Rightarrow> string \<Rightarrow> (suffix \<times> string) list \<Rightarrow> string" where
  \<comment> \<open>a literal written as a first piece and then, for every unsigned suffix that follows a
      digit 0, that digit, the suffix as \<open>f\<close> spells it, and the piece after it\<close>
  "render f p segs = p @ concat (map (\<lambda>(s, q). CHR ''0'' # f s @ q) segs)"

definition pieces_ok :: "string \<Rightarrow> (suffix \<times> string) list \<Rightarrow> bool" where
  \<comment> \<open>the pieces hold no further \<open>0U\<close>, and a piece after the suffix \<open>U\<close> does not start
      with \<open>LL\<close>\<close>
  "pieces_ok p segs \<longleftrightarrow> \<not> occurs ''0U'' p
     \<and> (\<forall>(s, q)\<in>set segs. \<not> occurs ''0U'' q \<and> (s = Suffix32 \<longrightarrow> \<not> prefix ''LL'' q))"

text \<open>
  The output file. \<open>print(x, file=f)\<close> writes \<open>x\<close> and a newline, so after the flush the
  file holds every printed string followed by a newline. A line of the file is what stands
  between two newlines; text after the last newline would be a last line, but \<open>print\<close>
  leaves none.
\<close>

definition file_text :: "string list \<Rightarrow> string" where
  "file_text out = concat (map (\<lambda>l. l @ [CHR 0x0A]) out)"

fun file_lines_aux :: "string \<Rightarrow> string \<Rightarrow> string list" where
  "file_lines_aux cur [] = (if cur = [] then [] else [cur])"
| "file_lines_aux cur (c # cs) =
     (if c = CHR 0x0A then cur # file_lines_aux [] cs else file_lines_aux (cur @ [c]) cs)"

definition file_lines :: "string \<Rightarrow> string list" where
  "file_lines t = file_lines_aux [] t"

section \<open>Example inputs\<close>

subsection \<open>Schema elements\<close>

definition xml_leaf :: "string \<Rightarrow> string \<Rightarrow> string option \<Rightarrow> xml" where
  \<comment> \<open>an element with text only, and the text that follows it\<close>
  "xml_leaf t x after = Element t [] (Some x) [] after"

definition xml_param :: "string \<Rightarrow> string \<Rightarrow> xml" where
  \<comment> \<open>\<^verbatim>\<open><param><type>ty</type> <name>nm</name></param>\<close>\<close>
  "xml_param ty nm = Element ''param'' [] None
     [xml_leaf ''type'' ty (Some '' ''), xml_leaf ''name'' nm None] None"

definition xml_qualified_param :: "string \<Rightarrow> string \<Rightarrow> string \<Rightarrow> string \<Rightarrow> xml" where
  \<comment> \<open>\<^verbatim>\<open><param>\<close>before\<^verbatim>\<open><type>ty</type>\<close>after\<^verbatim>\<open><name>nm</name></param>\<close>\<close>
  "xml_qualified_param before ty after nm = Element ''param'' [] (Some before)
     [xml_leaf ''type'' ty (Some after), xml_leaf ''name'' nm None] None"

definition xml_command :: "string \<Rightarrow> string \<Rightarrow> xml list \<Rightarrow> xml" where
  \<comment> \<open>\<^verbatim>\<open><command><proto><type>ret</type> <name>nm</name></proto>\<close> params \<^verbatim>\<open></command>\<close>\<close>
  "xml_command ret nm ps = Element ''command'' [] None
     (Element ''proto'' [] None [xml_leaf ''type'' ret (Some '' ''), xml_leaf ''name'' nm None] None
      # ps) None"

definition funcpointer_const_param :: xml where
  \<comment> \<open>\<^verbatim>\<open><type category="funcpointer">typedef void (VKAPI_PTR *<name>PFN_vkLog</name>)(\<close>
      newline \<^verbatim>\<open>    const <type>char</type>*   pMessage);</type>\<close>\<close>
  "funcpointer_const_param = Element ''type'' [(''category'', ''funcpointer'')]
     (Some ''typedef void (VKAPI_PTR *'')
     [xml_leaf ''name'' ''PFN_vkLog'' (Some ('')('' @ [CHR 0x0A] @ ''    const '')),
      xml_leaf ''type'' ''char'' (Some ''*   pMessage);'')] None"

definition enum_elem :: "string \<Rightarrow> string \<Rightarrow> xml" where
  \<comment> \<open>\<^verbatim>\<open><enum value="v" name="nm"/>\<close>\<close>
  "enum_elem nm v = Element ''enum'' [(''value'', v), (''name'', nm)] None [] None"

definition VkFooFlagBits_group :: xml where
  "VkFooFlagBits_group = Element ''enums'' [(''name'', ''VkFooFlagBits'')] None
     [enum_elem ''VK_FOO_A_BIT'' ''1'', enum_elem ''VK_FOO_LONGER_BIT'' ''16''] None"

definition three_commands :: "(xml \<times> string) list" where
  "three_commands =
     [(xml_command ''VkResult'' ''vkCreateInstance'' [xml_param ''VkDevice'' ''VkDevice''],
       ''vkCreateInstance''),
      (xml_command ''VkResult'' ''vkQueueWaitIdle'' [xml_param ''VkQueue'' ''queue''],
       ''vkQueueWaitIdle''),
      (xml_command ''void'' ''vkNothing'' [], ''vkNothing'')]"

subsection \<open>Front ends\<close>

definition value_attr :: enumToValue where
  \<comment> \<open>a front end that gives the attribute \<open>value\<close> as the literal, and no number\<close>
  "value_attr e needsNum = (None, get_attr e ''value'')"

definition value_length :: enumToValue where
  \<comment> \<open>a front end whose number for an element is the length of its attribute \<open>value\<close>\<close>
  "value_length e needsNum =
     (if needsNum then map_option (\<lambda>v. int (length v)) (get_attr e ''value'') else None,
      get_attr e ''value'')"

subsection \<open>Commands and buffers\<close>

definition vkDestroyDevice_cmd :: Command where
  "vkDestroyDevice_cmd = \<lparr>c_returnType = Some ''void'', c_name = ''vkDestroyDevice'',
     c_params = [\<lparr>p_typeStr = ''VkDevice'', p_name = Some ''device''\<rparr>]\<rparr>"

definition vkA_cmd :: Command where
  "vkA_cmd = \<lparr>c_returnType = Some ''void'', c_name = ''vkA'',
     c_params = [\<lparr>p_typeStr = ''int'', p_name = Some ''a''\<rparr>,
                 \<lparr>p_typeStr = ''VkDevice'', p_name = Some ''b''\<rparr>]\<rparr>"

definition vkB_cmd :: Command where
  "vkB_cmd = \<lparr>c_returnType = Some ''void'', c_name = ''vkB'',
     c_params = [\<lparr>p_typeStr = ''VkCommandBuffer'', p_name = Some ''c''\<rparr>,
                 \<lparr>p_typeStr = ''x'', p_name = Some ''d''\<rparr>]\<rparr>"

definition vkC_cmd :: Command where
  "vkC_cmd = \<lparr>c_returnType = Some ''VkResult'', c_name = ''vkC'', c_params = []\<rparr>"

definition recorded :: "Command list \<Rightarrow> DGenerator" where
  \<comment> \<open>a generator that has recorded the commands, its function-pointer section open at depth 1\<close>
  "recorded cs = (DGenerator_init None)\<lparr>sf := put FUNCPTR 1 [''extern(C) {''] SourceFile_init,
     cmds := cs\<rparr>"

definition trailing_space_sf :: SourceFile where
  "trailing_space_sf = SourceFile_init\<lparr>sections := (sections SourceFile_init)
     (ENUM := \<lparr>lines = [''enum A {  '', ''    ''], indent = 1\<rparr>), sect := ENUM\<rparr>"

definition line_break_sf :: SourceFile where
  \<comment> \<open>the fresh buffer after \<open>sf("a \nb")\<close>\<close>
  "line_break_sf = SourceFile_init\<lparr>sections := (sections SourceFile_init)
     (GLOBAL_DEF := \<lparr>lines = [CHR ''a'' # CHR '' '' # CHR 0x0A # ''b''], indent = 0\<rparr>)\<rparr>"

definition interleaved_ops :: "sfop list" where
  "interleaved_ops = [SetSect CMD, Line ''c1'' [], SetSect BASETYPE, Line ''b1'' [], Indent,
     SetSect CMD, Line ''c%s'' [''2''], SetSect BASETYPE, Line ''b2'' [], Unindent,
     SetSect GLOBAL_DEF, Line ''g1'' []]"

definition grouped_ops :: "sfop list" where
  \<comment> \<open>the appends of \<open>interleaved_ops\<close>, one section after the other\<close>
  "grouped_ops = [Line ''g1'' [], SetSect BASETYPE, Line ''b1'' [], Indent, Line ''b2'' [],
     Unindent, SetSect CMD, Line ''c1'' [], Line ''c%s'' [''2'']]"

section \<open>Verified properties\<close>

subsection \<open>Evaluation of the string functions\<close>

lemma replace_Nil [simp]: "replace old new [] = (if old = [] then new else [])"
  by (simp add: replace.simps)

lemma replace_Cons [simp]:
  "old \<noteq> [] \<Longrightarrow> replace old new (c # cs) =
     (if prefix old (c # cs) then new @ replace old new (drop (length old) (c # cs))
      else c # replace old new cs)"
  by (subst replace.simps) simp

lemma bind_err_simps [simp]:
  "bind_err (Inl e) f = Inl e"
  "bind_err (Inr v) f = f v"
  by (simp_all add: bind_err_def)

lemma makeDParamType_VkDevice: "makeDParamType (xml_param ''VkDevice'' nm) = ''VkDevice''"
proof -
  have "makeDParamType (xml_param ''VkDevice'' nm)
          = convertDTypeConst ''VkDevice''"
    by (simp add: makeDParamType_def makeDParamType_typeStr_def xml_param_def xml_leaf_def makePart_def noneStr_def
        strip_def rstrip_def isspace_def)
  then show ?thesis
    by (simp add: convertDTypeConst_def re_double_const_def re_single_const_def lits_def)
qed

subsection \<open>Classification of commands\<close>

text \<open>
  C1. A command that is not in the global allow-list and whose first parameter has the
  declared type \<open>VkDevice\<close> should be recorded in the device group. \<open>genCmd\<close> compares the
  parameter's name, not its type, with the three owner type names: for
  \<open>void vkDestroyDevice(VkDevice device)\<close> it records the command in the instance group
  and leaves the device group empty.
\<close>

theorem C1_genCmd_VkDevice_owner_goes_to_instance:
  "genCmd (DGenerator_init None)
      (xml_command ''void'' ''vkDestroyDevice'' [xml_param ''VkDevice'' ''device''])
      ''vkDestroyDevice''
   = Inr ((DGenerator_init None)\<lparr>cmds := [vkDestroyDevice_cmd],
        instanceCmdNames := {''vkDestroyDevice''},
        instanceCmds := [vkDestroyDevice_cmd]\<rparr>)"
proof -
  have params: "genCmd_params [xml_param ''VkDevice'' ''device''] []
      = Inr [\<lparr>p_typeStr = ''VkDevice'', p_name = Some ''device''\<rparr>]"
    using makeDParamType_VkDevice [of "''device''"]
    by (simp add: find_child_def xml_param_def xml_leaf_def)
  have "findall_children (xml_command ''void'' ''vkDestroyDevice'' [xml_param ''VkDevice'' ''device''])
          ''param'' = [xml_param ''VkDevice'' ''device'']"
    by (simp add: findall_children_def xml_command_def xml_param_def xml_leaf_def)
  with params show ?thesis
    by (simp add: genCmd_def xml_command_def findall_children_def xml_leaf_def
        globalCmdNames_def DGenerator_init_def vkDestroyDevice_cmd_def Let_def)
qed

subsection \<open>Function-pointer types\<close>

text \<open>
  C2. \<open>genType\<close> should append one alias line for every function-pointer type and never
  raise. For a function-pointer type with the parameter \<open>const char* pMessage\<close> the line of
  the parameter has three words, so \<open>genType\<close> calls \<open>convertTypeConst\<close>, which is not
  defined (the function is named \<open>convertDTypeConst\<close>), and raises \<open>NameError\<close>.
\<close>

theorem C2_genType_funcpointer_const_param_raises:
  "genType (DGenerator_init None) funcpointer_const_param ''PFN_vkLog'' = Inl NameError"
proof -
  have m: "rmatch re_funcptr ''typedef void (VKAPI_PTR *'' = Some ''void''"
    by (simp add: re_funcptr_def lits_def)
  have p: "drop 2 (concat (drop 2 (itertext funcpointer_const_param)))
      = CHR 0x0A # ''    const char*   pMessage);''"
    by (simp add: funcpointer_const_param_def xml_leaf_def nonempty_text_def)
  have s: "genType_params (splitlines (CHR 0x0A # ''    const char*   pMessage);'')) [] = Inl NameError"
    by (simp add: splitlines_def islinebreak_def split_def isspace_def join_def)
  have a: "get_attr funcpointer_const_param ''category'' = Some ''funcpointer''"
    by (simp add: get_attr_def funcpointer_const_param_def)
  have t: "xtext funcpointer_const_param = Some ''typedef void (VKAPI_PTR *''"
    by (simp add: funcpointer_const_param_def)
  show ?thesis
    by (simp add: genType_def a t m p s Let_def)
qed

subsection \<open>The final flush\<close>

lemma fold_snoc_map: "fold (\<lambda>x out. out @ [f x]) xs out = out @ map f xs"
  by (induction xs arbitrary: out) simp_all

lemma fold_append_concat: "fold (\<lambda>x out. out @ f x) xs out = out @ concat (map f xs)"
  by (induction xs arbitrary: out) simp_all

lemma writeOut_eq:
  "writeOut buf out = out @ concat (map (\<lambda>s. map rstrip (lines (sections buf s))) Sect_members)"
  by (simp add: writeOut_def fold_snoc_map fold_append_concat)

lemma rstrip_last: "rstrip s = [] \<or> \<not> isspace (last (rstrip s))"
proof (cases "dropWhile isspace (rev s) = []")
  case True
  then show ?thesis by (simp add: rstrip_def)
next
  case False
  then have "\<not> isspace (hd (dropWhile isspace (rev s)))"
    by (rule hd_dropWhile)
  with False show ?thesis
    by (simp add: rstrip_def last_rev)
qed

lemma rstrip_all_space: "\<forall>c\<in>set s. isspace c \<Longrightarrow> rstrip s = []"
  by (simp add: rstrip_def)

lemma indentation_all_space: "\<forall>c\<in>set (concat (replicate n one_indent_level)). isspace c"
  by (auto simp: one_indent_level_def isspace_def)

lemma file_lines_aux_line:
  "CHR 0x0A \<notin> set l \<Longrightarrow>
   file_lines_aux cur (l @ CHR 0x0A # rest) = (cur @ l) # file_lines_aux [] rest"
  by (induction l arbitrary: cur) auto

lemma file_lines_text:
  "\<forall>l\<in>set out. CHR 0x0A \<notin> set l \<Longrightarrow> file_lines (file_text out) = out"
proof (induction out)
  case Nil
  show ?case by (simp add: file_lines_def file_text_def)
next
  case (Cons l out)
  then have "file_lines_aux [] (l @ CHR 0x0A # file_text out) = l # file_lines_aux [] (file_text out)"
    using file_lines_aux_line [of l "[]" "file_text out"] by simp
  with Cons show ?case
    by (simp add: file_lines_def file_text_def)
qed

lemma rstrip_subset: "set (rstrip l) \<subseteq> set l"
  using set_dropWhileD [of _ isspace "rev l"] by (auto simp: rstrip_def)

lemma writeOut_members:
  "l \<in> set (writeOut buf []) \<Longrightarrow> \<exists>s. \<exists>l'\<in>set (lines (sections buf s)). l = rstrip l'"
  by (auto simp: writeOut_eq)

text \<open>
  C10, as the code has it. Every string that the final flush prints is the appended line
  with its trailing whitespace stripped, so no printed string ends in whitespace. If no
  appended line holds a newline, the lines of the output file are exactly the printed
  strings, so no line of the file ends in whitespace. An empty line appended at any
  indentation depth is stored as the indentation alone and is the empty line in the file.
\<close>

theorem C10_writeOut_strips_trailing_whitespace:
  "writeOut buf [] = map rstrip (concat (map (\<lambda>s. lines (sections buf s)) Sect_members))
   \<and> (\<forall>l \<in> set (writeOut buf []). l = [] \<or> \<not> isspace (last l))
   \<and> ((\<forall>s. \<forall>l \<in> set (lines (sections buf s)). CHR 0x0A \<notin> set l) \<longrightarrow>
        file_lines (file_text (writeOut buf [])) = writeOut buf []
        \<and> (\<forall>l \<in> set (file_lines (file_text (writeOut buf []))). l = [] \<or> \<not> isspace (last l)))
   \<and> (\<exists>buf'. sf_call buf [] [] = Inr buf'
         \<and> lines (section_of buf') = lines (section_of buf)
              @ [concat (replicate (indent (section_of buf)) one_indent_level)]
         \<and> rstrip (last (lines (section_of buf'))) = []
         \<and> file_lines (file_text [rstrip (last (lines (section_of buf')))]) = [[]])"
proof (intro conjI)
  show eq: "writeOut buf [] = map rstrip (concat (map (\<lambda>s. lines (sections buf s)) Sect_members))"
    by (simp add: writeOut_eq map_concat comp_def)
  then show printed: "\<forall>l \<in> set (writeOut buf []). l = [] \<or> \<not> isspace (last l)"
    using rstrip_last by auto
  show "(\<forall>s. \<forall>l \<in> set (lines (sections buf s)). CHR 0x0A \<notin> set l) \<longrightarrow>
        file_lines (file_text (writeOut buf [])) = writeOut buf []
        \<and> (\<forall>l \<in> set (file_lines (file_text (writeOut buf []))). l = [] \<or> \<not> isspace (last l))"
  proof
    assume stored: "\<forall>s. \<forall>l \<in> set (lines (sections buf s)). CHR 0x0A \<notin> set l"
    have "\<forall>l\<in>set (writeOut buf []). CHR 0x0A \<notin> set l"
    proof
      fix l
      assume "l \<in> set (writeOut buf [])"
      then obtain s l' where "l' \<in> set (lines (sections buf s))" and "l = rstrip l'"
        using writeOut_members by blast
      with stored rstrip_subset [of l'] show "CHR 0x0A \<notin> set l"
        by blast
    qed
    then have "file_lines (file_text (writeOut buf [])) = writeOut buf []"
      by (rule file_lines_text)
    with printed show "file_lines (file_text (writeOut buf [])) = writeOut buf []
        \<and> (\<forall>l \<in> set (file_lines (file_text (writeOut buf []))). l = [] \<or> \<not> isspace (last l))"
      by simp
  qed
  show "\<exists>buf'. sf_call buf [] [] = Inr buf'
         \<and> lines (section_of buf') = lines (section_of buf)
              @ [concat (replicate (indent (section_of buf)) one_indent_level)]
         \<and> rstrip (last (lines (section_of buf'))) = []
         \<and> file_lines (file_text [rstrip (last (lines (section_of buf')))]) = [[]]"
    using rstrip_all_space [OF indentation_all_space]
    by (simp add: sf_call_def section_of_def Let_def file_lines_def file_text_def)
qed

theorem C10_writeOut_strips_trailing_whitespace_witness:
  "writeOut trailing_space_sf [] = [''enum A {'', []]
   \<and> file_lines (file_text (writeOut trailing_space_sf [])) = [''enum A {'', []]
   \<and> ''enum A {'' \<in> set (file_lines (file_text (writeOut trailing_space_sf [])))
   \<and> (''enum A {'' = [] \<or> \<not> isspace (last ''enum A {''))"
proof -
  have stored: "\<forall>s. \<forall>l \<in> set (lines (sections trailing_space_sf s)). CHR 0x0A \<notin> set l"
    by (simp add: trailing_space_sf_def SourceFile_init_def)
  have w: "writeOut trailing_space_sf [] = [''enum A {'', []]"
    by (simp add: writeOut_eq Sect_members_def trailing_space_sf_def SourceFile_init_def
        rstrip_def isspace_def)
  from stored C10_writeOut_strips_trailing_whitespace [of trailing_space_sf]
  have f: "file_lines (file_text (writeOut trailing_space_sf [])) = writeOut trailing_space_sf []"
    and n: "\<forall>l \<in> set (file_lines (file_text (writeOut trailing_space_sf []))).
        l = [] \<or> \<not> isspace (last l)"
    by blast+
  from f w have m: "''enum A {'' \<in> set (file_lines (file_text (writeOut trailing_space_sf [])))"
    by simp
  with n have "''enum A {'' = [] \<or> \<not> isspace (last ''enum A {'')"
    by blast
  with w f m show ?thesis
    by simp
qed

text \<open>
  C10, as the specification states it, holds of every appended line. A line appended with
  a newline in it is printed as it is, and the text before the newline is a line of the
  file that ends in a space.
\<close>

theorem C10_writeOut_line_break_in_line:
  "sf_call SourceFile_init (CHR ''a'' # CHR '' '' # CHR 0x0A # ''b'') [] = Inr line_break_sf
   \<and> writeOut line_break_sf [] = [CHR ''a'' # CHR '' '' # CHR 0x0A # ''b'']
   \<and> file_lines (file_text (writeOut line_break_sf [])) = [''a '', ''b'']
   \<and> isspace (last ''a '')"
  by (simp add: sf_call_def section_of_def line_break_sf_def SourceFile_init_def writeOut_eq
      Sect_members_def rstrip_def isspace_def file_lines_def file_text_def)

lemma run_ops_sect_lines:
  "run_ops ops buf = Inr buf' \<Longrightarrow>
   lines (sections buf' s) = lines (sections buf s) @ sect_lines s (sect buf) (indent (sections buf s)) ops"
proof (induction ops arbitrary: buf)
  case Nil
  then show ?case by simp
next
  case (Cons x ops)
  from Cons.prems obtain sf1 where x: "run_op x buf = Inr sf1" and r: "run_ops ops sf1 = Inr buf'"
    by (cases "run_op x buf") auto
  note ih = Cons.IH [OF r]
  show ?case
  proof (cases x)
    case (SetSect t)
    with x ih show ?thesis by (auto simp: set_section_def)
  next
    case Indent
    with x ih show ?thesis by (auto simp: sf_indent_def section_of_def)
  next
    case Unindent
    with x ih show ?thesis
      by (auto simp: sf_unindent_def section_of_def split: if_splits)
  next
    case (Line fmt args)
    with x obtain t where t: "pyformat fmt args = Inr t"
      by (cases "pyformat fmt args") (auto simp: sf_call_def)
    with Line x ih show ?thesis
      by (auto simp: sf_call_def section_of_def Let_def)
  qed
qed

text \<open>
  C9. Whatever the interleaving of section switches and appends in a run, the final flush
  prints the sections in the order of declaration of \<open>Sect\<close>, each with its lines in the
  order of appending; what a section holds is told by the operations run while it was
  active, so two runs that give every section the same lines print the same output.
\<close>

theorem C9_writeOut_declaration_order:
  assumes "run_ops ops SourceFile_init = Inr buf1"
  shows "writeOut buf1 [] =
           map rstrip (sect_lines GLOBAL_DEF GLOBAL_DEF 0 ops)
         @ map rstrip (sect_lines BASETYPE GLOBAL_DEF 0 ops)
         @ map rstrip (sect_lines CONST' GLOBAL_DEF 0 ops)
         @ map rstrip (sect_lines HANDLE GLOBAL_DEF 0 ops)
         @ map rstrip (sect_lines FUNCPTR GLOBAL_DEF 0 ops)
         @ map rstrip (sect_lines ENUM GLOBAL_DEF 0 ops)
         @ map rstrip (sect_lines STRUCT GLOBAL_DEF 0 ops)
         @ map rstrip (sect_lines CMD GLOBAL_DEF 0 ops)
       \<and> (\<forall>ops' buf2. run_ops ops' SourceFile_init = Inr buf2
             \<and> (\<forall>s. sect_lines s GLOBAL_DEF 0 ops' = sect_lines s GLOBAL_DEF 0 ops)
             \<longrightarrow> writeOut buf2 [] = writeOut buf1 [])"
proof -
  have l: "lines (sections b s) = sect_lines s GLOBAL_DEF 0 xs"
    if "run_ops xs SourceFile_init = Inr b" for xs b s
    using run_ops_sect_lines [OF that, of s] by (simp add: SourceFile_init_def)
  have "writeOut buf1 [] =
           map rstrip (sect_lines GLOBAL_DEF GLOBAL_DEF 0 ops)
         @ map rstrip (sect_lines BASETYPE GLOBAL_DEF 0 ops)
         @ map rstrip (sect_lines CONST' GLOBAL_DEF 0 ops)
         @ map rstrip (sect_lines HANDLE GLOBAL_DEF 0 ops)
         @ map rstrip (sect_lines FUNCPTR GLOBAL_DEF 0 ops)
         @ map rstrip (sect_lines ENUM GLOBAL_DEF 0 ops)
         @ map rstrip (sect_lines STRUCT GLOBAL_DEF 0 ops)
         @ map rstrip (sect_lines CMD GLOBAL_DEF 0 ops)"
    by (simp add: writeOut_eq Sect_members_def l [OF assms])
  moreover have "writeOut buf2 [] = writeOut buf1 []"
    if "run_ops ops' SourceFile_init = Inr buf2"
      and "\<forall>s. sect_lines s GLOBAL_DEF 0 ops' = sect_lines s GLOBAL_DEF 0 ops"
    for ops' buf2
    using that by (simp add: writeOut_eq l [OF assms] l [OF that(1)])
  ultimately show ?thesis by blast
qed

lemma pyformat_plain_examples [simp]:
  "pyformat ''c1'' [] = Inr ''c1''" "pyformat ''b1'' [] = Inr ''b1''"
  "pyformat ''b2'' [] = Inr ''b2''" "pyformat ''g1'' [] = Inr ''g1''"
  "pyformat ''c%s'' [''2''] = Inr ''c2''"
  by simp_all

lemma sect_lines_interleaved:
  "sect_lines GLOBAL_DEF GLOBAL_DEF 0 interleaved_ops = [''g1'']"
  "sect_lines BASETYPE GLOBAL_DEF 0 interleaved_ops = [''b1'', ''    b2'']"
  "sect_lines CMD GLOBAL_DEF 0 interleaved_ops = [''c1'', ''c2'']"
  "sect_lines CONST' GLOBAL_DEF 0 interleaved_ops = []"
  "sect_lines HANDLE GLOBAL_DEF 0 interleaved_ops = []"
  "sect_lines FUNCPTR GLOBAL_DEF 0 interleaved_ops = []"
  "sect_lines ENUM GLOBAL_DEF 0 interleaved_ops = []"
  "sect_lines STRUCT GLOBAL_DEF 0 interleaved_ops = []"
  by (simp_all add: interleaved_ops_def one_indent_level_def)

lemma sect_lines_grouped:
  "sect_lines s GLOBAL_DEF 0 grouped_ops = sect_lines s GLOBAL_DEF 0 interleaved_ops"
  by (cases s) (simp_all add: sect_lines_interleaved, simp_all add: grouped_ops_def one_indent_level_def)

lemma rstrip_examples [simp]:
  "rstrip ''g1'' = ''g1''" "rstrip ''b1'' = ''b1''" "rstrip ''    b2'' = ''    b2''"
  "rstrip ''c1'' = ''c1''" "rstrip ''c2'' = ''c2''"
  by (simp_all add: rstrip_def isspace_def)

theorem C9_writeOut_declaration_order_witness:
  "map_sum id (\<lambda>b. writeOut b []) (run_ops interleaved_ops SourceFile_init)
     = Inr [''g1'', ''b1'', ''    b2'', ''c1'', ''c2'']
   \<and> map_sum id (\<lambda>b. writeOut b []) (run_ops grouped_ops SourceFile_init)
     = Inr [''g1'', ''b1'', ''    b2'', ''c1'', ''c2'']"
proof -
  obtain b1 where r1: "run_ops interleaved_ops SourceFile_init = Inr b1"
    by (simp add: interleaved_ops_def sf_call_def sf_unindent_def sf_indent_def set_section_def
        section_of_def SourceFile_init_def)
  obtain b2 where r2: "run_ops grouped_ops SourceFile_init = Inr b2"
    by (simp add: grouped_ops_def sf_call_def sf_unindent_def sf_indent_def set_section_def
        section_of_def SourceFile_init_def)
  from C9_writeOut_declaration_order [OF r1]
  have w1: "writeOut b1 [] = [''g1'', ''b1'', ''    b2'', ''c1'', ''c2'']"
    and eq: "\<forall>ops' buf2. run_ops ops' SourceFile_init = Inr buf2
             \<and> (\<forall>s. sect_lines s GLOBAL_DEF 0 ops' = sect_lines s GLOBAL_DEF 0 interleaved_ops)
             \<longrightarrow> writeOut buf2 [] = writeOut b1 []"
    by (simp_all add: sect_lines_interleaved)
  from eq r2 sect_lines_grouped have "writeOut b2 [] = writeOut b1 []"
    by blast
  with w1 r1 r2 show ?thesis by simp
qed

lemma genCmd_step:
  assumes "genCmd g cmdinfo name = Inr g'"
  shows "\<exists>cmd. c_name cmd = name \<and> cmds g' = cmds g @ [cmd]
     \<and> globalCmds g' = globalCmds g @ filter (\<lambda>c. c_name c \<in> globalCmdNames) [cmd]
     \<and> deviceCmds g' = deviceCmds g
          @ filter (\<lambda>c. c_name c \<notin> globalCmdNames \<and> owner_test c) [cmd]
     \<and> instanceCmds g' = instanceCmds g
          @ filter (\<lambda>c. c_name c \<notin> globalCmdNames \<and> \<not> owner_test c) [cmd]"
proof -
  from assms obtain t params where
    "genCmd_params (findall_children cmdinfo ''param'') [] = Inr params"
    and g': "g' = (let cmd = \<lparr>c_returnType = xtext t, c_name = name, c_params = params\<rparr>;
                     g = g\<lparr>cmds := cmds g @ [cmd]\<rparr>
                 in if name \<in> globalCmdNames then g\<lparr>globalCmds := globalCmds g @ [cmd]\<rparr>
                    else if length params \<noteq> 0 \<and> p_name (params ! 0)
                              \<in> {Some ''VkDevice'', Some ''VkQueue'', Some ''VkCommandBuffer''}
                    then g\<lparr>deviceCmds := deviceCmds g @ [cmd],
                           deviceCmdNames := insert name (deviceCmdNames g)\<rparr>
                    else g\<lparr>instanceCmds := instanceCmds g @ [cmd],
                           instanceCmdNames := insert name (instanceCmdNames g)\<rparr>)"
    unfolding genCmd_def
    by (cases "genCmd_params (findall_children cmdinfo ''param'') []")
       (auto split: list.splits simp: Let_def)
  show ?thesis
    by (rule exI [of _ "\<lparr>c_returnType = xtext t, c_name = name, c_params = params\<rparr>"])
       (simp add: g' Let_def owner_test_def)
qed

text \<open>
  C8. For every sequence of commands delivered in a run, \<open>genCmd\<close> appends each command
  once to the total list, in the order of delivery, and to exactly one of the three group
  lists: the global list gets the commands whose name is in the allow-list, whatever their
  parameters, and the other commands go to the device list or to the instance list, as one
  test of the command decides.
\<close>

theorem C8_genCmd_partitions_commands:
  assumes "genCmds g deliveries = Inr g'"
  shows "\<exists>news. map c_name news = map snd deliveries
     \<and> cmds g' = cmds g @ news
     \<and> globalCmds g' = globalCmds g @ filter (\<lambda>c. c_name c \<in> globalCmdNames) news
     \<and> deviceCmds g' = deviceCmds g
          @ filter (\<lambda>c. c_name c \<notin> globalCmdNames \<and> owner_test c) news
     \<and> instanceCmds g' = instanceCmds g
          @ filter (\<lambda>c. c_name c \<notin> globalCmdNames \<and> \<not> owner_test c) news"
  using assms
proof (induction deliveries arbitrary: g)
  case Nil
  then show ?case by simp
next
  case (Cons d deliveries)
  obtain cmdinfo name where d: "d = (cmdinfo, name)"
    by (cases d)
  with Cons.prems obtain g1 where
    step: "genCmd g cmdinfo name = Inr g1" and rest: "genCmds g1 deliveries = Inr g'"
    by (cases "genCmd g cmdinfo name") auto
  from genCmd_step [OF step] obtain cmd where cmd:
    "c_name cmd = name" "cmds g1 = cmds g @ [cmd]"
    "globalCmds g1 = globalCmds g @ filter (\<lambda>c. c_name c \<in> globalCmdNames) [cmd]"
    "deviceCmds g1 = deviceCmds g
       @ filter (\<lambda>c. c_name c \<notin> globalCmdNames \<and> owner_test c) [cmd]"
    "instanceCmds g1 = instanceCmds g
       @ filter (\<lambda>c. c_name c \<notin> globalCmdNames \<and> \<not> owner_test c) [cmd]"
    by blast
  from Cons.IH [OF rest] obtain news where news:
    "map c_name news = map snd deliveries" "cmds g' = cmds g1 @ news"
    "globalCmds g' = globalCmds g1 @ filter (\<lambda>c. c_name c \<in> globalCmdNames) news"
    "deviceCmds g' = deviceCmds g1
       @ filter (\<lambda>c. c_name c \<notin> globalCmdNames \<and> owner_test c) news"
    "instanceCmds g' = instanceCmds g1
       @ filter (\<lambda>c. c_name c \<notin> globalCmdNames \<and> \<not> owner_test c) news"
    by blast
  show ?case
    by (rule exI [of _ "cmd # news"]) (simp add: d cmd news)
qed

lemma makeDParamType_VkQueue: "makeDParamType (xml_param ''VkQueue'' nm) = ''VkQueue''"
proof -
  have "makeDParamType (xml_param ''VkQueue'' nm) = convertDTypeConst ''VkQueue''"
    by (simp add: makeDParamType_def makeDParamType_typeStr_def xml_param_def xml_leaf_def makePart_def noneStr_def
        strip_def rstrip_def isspace_def)
  then show ?thesis
    by (simp add: convertDTypeConst_def re_double_const_def re_single_const_def lits_def)
qed

theorem C8_genCmd_partitions_commands_witness:
  "map_sum id (\<lambda>g. (map c_name (cmds g), map c_name (globalCmds g)))
     (genCmds (DGenerator_init None) three_commands)
   = Inr ([''vkCreateInstance'', ''vkQueueWaitIdle'', ''vkNothing''], [''vkCreateInstance''])"
proof -
  have p1: "genCmd_params [xml_param ''VkDevice'' ''VkDevice''] []
      = Inr [\<lparr>p_typeStr = ''VkDevice'', p_name = Some ''VkDevice''\<rparr>]"
    using makeDParamType_VkDevice [of "''VkDevice''"]
    by (simp add: find_child_def xml_param_def xml_leaf_def)
  have p2: "genCmd_params [xml_param ''VkQueue'' ''queue''] []
      = Inr [\<lparr>p_typeStr = ''VkQueue'', p_name = Some ''queue''\<rparr>]"
    using makeDParamType_VkQueue [of "''queue''"]
    by (simp add: find_child_def xml_param_def xml_leaf_def)
  have p3: "genCmd_params [] [] = Inr []"
    by simp
  have t: "xtag (xml_param ty nm) = ''param''" for ty nm
    by (simp add: xml_param_def)
  have f: "findall_children (xml_command ret nm ps) ''param'' = ps"
    "concat (map (\<lambda>pr. findall_children pr ''type'') (findall_children (xml_command ret nm ps) ''proto''))
       = [xml_leaf ''type'' ret (Some '' '')]"
    if "\<forall>p\<in>set ps. xtag p = ''param''" for ret nm ps
    using that by (simp_all add: findall_children_def xml_command_def xml_leaf_def)
  obtain g' where run: "genCmds (DGenerator_init None) three_commands = Inr g'"
    by (simp add: three_commands_def genCmd_def f t p1 p2 p3 Let_def globalCmdNames_def
        del: genCmd_params.simps)
  from C8_genCmd_partitions_commands [OF run] obtain news where
    n: "map c_name news = map snd three_commands"
    and c: "cmds g' = cmds (DGenerator_init None) @ news"
    and gl: "globalCmds g' = globalCmds (DGenerator_init None)
               @ filter (\<lambda>c. c_name c \<in> globalCmdNames) news"
    by blast
  have "map c_name (filter (\<lambda>c. c_name c \<in> globalCmdNames) news)
      = filter (\<lambda>x. x \<in> globalCmdNames) (map c_name news)"
    by (simp add: filter_map comp_def)
  with n have "map c_name (filter (\<lambda>c. c_name c \<in> globalCmdNames) news) = [''vkCreateInstance'']"
    by (simp add: three_commands_def globalCmdNames_def)
  with n c gl run show ?thesis
    by (simp add: DGenerator_init_def three_commands_def)
qed

subsection \<open>Constants\<close>

lemma replace_no_occurrence:
  assumes "old \<noteq> []" "\<And>p q. s \<noteq> p @ old @ q"
  shows "replace old new s = s"
  using assms(2)
proof (induction s)
  case Nil
  with assms(1) show ?case by simp
next
  case (Cons c cs)
  have "\<not> prefix old (c # cs)"
  proof
    assume "prefix old (c # cs)"
    then obtain q where "c # cs = [] @ old @ q"
      by (auto simp: prefix_def)
    with Cons.prems show False by blast
  qed
  moreover have "cs \<noteq> p @ old @ q" for p q
    using Cons.prems [of "c # p" q] by auto
  ultimately show ?case
    using Cons.IH assms(1) by simp
qed

lemma occurs_iff: "occurs old s \<longleftrightarrow> (\<exists>p q. s = p @ old @ q)"
proof (induction s)
  case Nil
  then show ?case by simp
next
  case (Cons c cs)
  have "(\<exists>p q. c # cs = p @ old @ q) \<longleftrightarrow> prefix old (c # cs) \<or> (\<exists>p q. cs = p @ old @ q)"
  proof
    assume "\<exists>p q. c # cs = p @ old @ q"
    then obtain p q where pq: "c # cs = p @ old @ q" by blast
    show "prefix old (c # cs) \<or> (\<exists>p q. cs = p @ old @ q)"
    proof (cases p)
      case Nil
      with pq show ?thesis by (auto simp: prefix_def)
    next
      case (Cons a p')
      with pq show ?thesis by auto
    qed
  next
    assume "prefix old (c # cs) \<or> (\<exists>p q. cs = p @ old @ q)"
    then show "\<exists>p q. c # cs = p @ old @ q"
    proof
      assume "prefix old (c # cs)"
      then obtain q where "c # cs = [] @ old @ q" by (auto simp: prefix_def)
      then show ?thesis by blast
    next
      assume "\<exists>p q. cs = p @ old @ q"
      then obtain p q where "cs = p @ old @ q" by blast
      then have "c # cs = (c # p) @ old @ q" by simp
      then show ?thesis by blast
    qed
  qed
  with Cons show ?case by simp
qed

lemma replace_not_occurs: "old \<noteq> [] \<Longrightarrow> \<not> occurs old s \<Longrightarrow> replace old new s = s"
  by (rule replace_no_occurrence) (auto simp: occurs_iff)

lemma replace_Cons_skip:
  "old \<noteq> [] \<Longrightarrow> \<not> prefix old (c # cs) \<Longrightarrow> replace old new (c # cs) = c # replace old new cs"
  by (subst replace.simps) simp

lemma replace_through_piece:
  assumes "\<not> occurs [a, b] p" "a \<noteq> b" "rest = [] \<or> hd rest = a"
  shows "replace (a # b # r) new (p @ rest) = p @ replace (a # b # r) new rest"
  using assms(1)
proof (induction p)
  case Nil
  then show ?case by simp
next
  case (Cons c p)
  from Cons.prems have no: "\<not> prefix [a, b] (c # p)" and rec: "\<not> occurs [a, b] p"
    by simp_all
  have np: "\<not> prefix (a # b # r) (c # (p @ rest))"
  proof
    assume "prefix (a # b # r) (c # (p @ rest))"
    then have ca: "c = a" and pb: "prefix (b # r) (p @ rest)"
      by simp_all
    show False
    proof (cases p)
      case Nil
      with pb have "rest \<noteq> []" "hd rest = b"
        by (auto simp: prefix_def)
      with assms(2,3) show False by auto
    next
      case (Cons d p')
      with pb have "d = b" by simp
      with ca Cons no show False by simp
    qed
  qed
  have ne: "a # b # r \<noteq> []"
    by simp
  have "replace (a # b # r) new (c # (p @ rest)) = c # replace (a # b # r) new (p @ rest)"
    by (rule replace_Cons_skip [OF ne np])
  with Cons.IH [OF rec] show ?case by simp
qed

lemma render_tail_start:
  "concat (map (\<lambda>(s, q). CHR ''0'' # f s @ q) segs) = []
   \<or> hd (concat (map (\<lambda>(s, q). CHR ''0'' # f s @ q) segs)) = CHR ''0''"
  by (cases segs) auto

lemma no_LL_before_tail:
  assumes "\<not> prefix ''LL'' q" "t = [] \<or> hd t = CHR ''0''"
  shows "\<not> prefix ''LL'' (q @ t)"
proof (cases q)
  case Nil
  with assms(2) show ?thesis by (cases t) auto
next
  case (Cons x q')
  show ?thesis
  proof (cases q')
    case Nil
    with Cons assms(2) show ?thesis by (cases t) auto
  next
    case (Cons y q'')
    with \<open>q = x # q'\<close> assms(1) show ?thesis by simp
  qed
qed

lemma replace_0ULL_tail:
  assumes "\<forall>(s, q)\<in>set segs. \<not> occurs ''0U'' q \<and> (s = Suffix32 \<longrightarrow> \<not> prefix ''LL'' q)"
  shows "replace ''0ULL'' ''0uL'' (concat (map (\<lambda>(s, q). CHR ''0'' # c_suffix s @ q) segs))
    = concat (map (\<lambda>(s, q). CHR ''0'' # (case s of Suffix64 \<Rightarrow> ''uL'' | Suffix32 \<Rightarrow> ''U'') @ q) segs)"
  using assms
proof (induction segs)
  case Nil
  then show ?case by simp
next
  case (Cons sq segs)
  obtain s q where sq: "sq = (s, q)" by (cases sq)
  let ?t = "concat (map (\<lambda>(s, q). CHR ''0'' # c_suffix s @ q) segs)"
  have t: "?t = [] \<or> hd ?t = CHR ''0''"
    by (rule render_tail_start)
  from Cons.prems sq have q: "\<not> occurs ''0U'' q" and ll: "s = Suffix32 \<longrightarrow> \<not> prefix ''LL'' q"
    and rest: "\<forall>(s, q)\<in>set segs. \<not> occurs ''0U'' q \<and> (s = Suffix32 \<longrightarrow> \<not> prefix ''LL'' q)"
    by auto
  have piece: "replace ''0ULL'' ''0uL'' (q @ ?t) = q @ replace ''0ULL'' ''0uL'' ?t"
    using replace_through_piece [of "CHR ''0''" "CHR ''U''" q ?t "''LL''" "''0uL''"] q t by simp
  show ?case
  proof (cases s)
    case Suffix64
    then show ?thesis
      using piece Cons.IH [OF rest] by (simp add: sq)
  next
    case Suffix32
    with ll have "\<not> prefix ''LL'' (q @ ?t)"
      using t by (intro no_LL_before_tail) simp_all
    then show ?thesis
      using piece Cons.IH [OF rest] Suffix32 by (simp add: sq)
  qed
qed

lemma replace_0U_tail:
  assumes "\<forall>(s, q)\<in>set segs. \<not> occurs ''0U'' q"
  shows "replace ''0U'' ''0u''
      (concat (map (\<lambda>(s, q). CHR ''0'' # (case s of Suffix64 \<Rightarrow> ''uL'' | Suffix32 \<Rightarrow> ''U'') @ q) segs))
    = concat (map (\<lambda>(s, q). CHR ''0'' # d_suffix s @ q) segs)"
  using assms
proof (induction segs)
  case Nil
  then show ?case by simp
next
  case (Cons sq segs)
  obtain s q where sq: "sq = (s, q)" by (cases sq)
  let ?t = "concat (map (\<lambda>(s, q). CHR ''0'' # (case s of Suffix64 \<Rightarrow> ''uL'' | Suffix32 \<Rightarrow> ''U'') @ q) segs)"
  have t: "?t = [] \<or> hd ?t = CHR ''0''"
    by (rule render_tail_start)
  from Cons.prems sq have q: "\<not> occurs ''0U'' q"
    and rest: "\<forall>(s, q)\<in>set segs. \<not> occurs ''0U'' q"
    by auto
  have piece: "replace ''0U'' ''0u'' (q @ ?t) = q @ replace ''0U'' ''0u'' ?t"
    using replace_through_piece [of "CHR ''0''" "CHR ''U''" q ?t "[]" "''0u''"] q t by simp
  have "\<not> occurs ''0U'' (CHR ''L'' # q)"
    using q by simp
  then have pieceL: "replace ''0U'' ''0u'' ((CHR ''L'' # q) @ ?t)
      = (CHR ''L'' # q) @ replace ''0U'' ''0u'' ?t"
    using replace_through_piece [of "CHR ''0''" "CHR ''U''" "CHR ''L'' # q" ?t "[]" "''0u''"] t
    by simp
  show ?case
  proof (cases s)
    case Suffix64
    then show ?thesis
      using pieceL Cons.IH [OF rest] by (simp add: sq)
  next
    case Suffix32
    then show ?thesis
      using piece Cons.IH [OF rest] by (simp add: sq)
  qed
qed

lemma replace_suffixes_render:
  assumes "pieces_ok p segs"
  shows "replace ''0U'' ''0u'' (replace ''0ULL'' ''0uL'' (render c_suffix p segs))
    = render d_suffix p segs"
proof -
  let ?c = "concat (map (\<lambda>(s, q). CHR ''0'' # c_suffix s @ q) segs)"
  let ?m = "concat (map (\<lambda>(s, q). CHR ''0'' # (case s of Suffix64 \<Rightarrow> ''uL'' | Suffix32 \<Rightarrow> ''U'') @ q) segs)"
  from assms have p: "\<not> occurs ''0U'' p"
    and segs: "\<forall>(s, q)\<in>set segs. \<not> occurs ''0U'' q \<and> (s = Suffix32 \<longrightarrow> \<not> prefix ''LL'' q)"
    by (simp_all add: pieces_ok_def)
  have "replace ''0ULL'' ''0uL'' (p @ ?c) = p @ replace ''0ULL'' ''0uL'' ?c"
    using replace_through_piece [of "CHR ''0''" "CHR ''U''" p ?c "''LL''" "''0uL''"] p
      render_tail_start [of c_suffix segs] by simp
  also have "\<dots> = p @ ?m"
    using replace_0ULL_tail [OF segs] by simp
  finally have one: "replace ''0ULL'' ''0uL'' (render c_suffix p segs) = p @ ?m"
    by (simp add: render_def)
  have "replace ''0U'' ''0u'' (p @ ?m) = p @ replace ''0U'' ''0u'' ?m"
    using replace_through_piece [of "CHR ''0''" "CHR ''U''" p ?m "[]" "''0u''"] p
      render_tail_start [of "\<lambda>s. case s of Suffix64 \<Rightarrow> ''uL'' | Suffix32 \<Rightarrow> ''U''" segs] by simp
  also have "\<dots> = render d_suffix p segs"
    using replace_0U_tail [of segs] segs by (auto simp: render_def)
  finally show ?thesis
    using one by simp
qed

lemma pyformat_enum_const:
  "pyformat ''enum %s = %s;'' [a, b] = Inr (''enum '' @ a @ '' = '' @ b @ '';'')"
  by simp

lemma decompose_literal: "\<exists>p segs. s = render c_suffix p segs \<and> pieces_ok p segs"
proof (induction s)
  case Nil
  have "[] = render c_suffix [] [] \<and> pieces_ok [] []"
    by (simp add: render_def pieces_ok_def)
  then show ?case by blast
next
  case (Cons c s)
  then obtain p segs where s: "s = render c_suffix p segs" and ok: "pieces_ok p segs"
    by blast
  from ok have p: "\<not> occurs ''0U'' p"
    and segs: "\<forall>(s, q)\<in>set segs. \<not> occurs ''0U'' q \<and> (s = Suffix32 \<longrightarrow> \<not> prefix ''LL'' q)"
    by (simp_all add: pieces_ok_def)
  show ?case
  proof (cases "c = CHR ''0'' \<and> prefix ''U'' p")
    case False
    then have "\<not> occurs ''0U'' (c # p)"
      using p by auto
    then have "c # s = render c_suffix (c # p) segs \<and> pieces_ok (c # p) segs"
      using s segs by (simp add: render_def pieces_ok_def)
    then show ?thesis by blast
  next
    case True
    then obtain p' where p': "p = CHR ''U'' # p'" and c: "c = CHR ''0''"
      by (cases p) auto
    from p p' have np': "\<not> occurs ''0U'' p'"
      by simp
    show ?thesis
    proof (cases "prefix ''LL'' p'")
      case False
      then have "c # s = render c_suffix [] ((Suffix32, p') # segs)
          \<and> pieces_ok [] ((Suffix32, p') # segs)"
        using s segs np' p' c by (simp add: render_def pieces_ok_def)
      then show ?thesis by blast
    next
      case True
      then obtain p'' where p'': "p' = CHR ''L'' # CHR ''L'' # p''"
        by (auto simp: prefix_def)
      with np' have "\<not> occurs ''0U'' p''"
        by simp
      then have "c # s = render c_suffix [] ((Suffix64, p'') # segs)
          \<and> pieces_ok [] ((Suffix64, p'') # segs)"
        using s segs p' p'' c by (simp add: render_def pieces_ok_def)
      then show ?thesis by blast
    qed
  qed
qed

text \<open>
  C7, as the code has it. For an enumeration constant with a value literal, \<open>genEnum\<close>
  appends exactly one line \<open>enum name = value;\<close> to the constants section and changes no
  other section. Every literal is a first piece followed, for each unsigned suffix \<open>ULL\<close>
  or \<open>U\<close> that stands directly after a digit \<open>0\<close>, by that digit, the suffix and a further
  piece. In the value every such \<open>ULL\<close> is written \<open>uL\<close> and every such \<open>U\<close> is written
  \<open>u\<close>, and the pieces are left as they are; so a literal in which no \<open>U\<close> follows a digit
  \<open>0\<close> is emitted unchanged.
\<close>

theorem C7_genEnum_rewrites_zero_suffix:
  assumes "snd (enumToValue enuminfo False) = Some strVal"
  shows "\<exists>v buf. genEnum enumToValue g enuminfo name = Inr (g\<lparr>sf := buf\<rparr>)
     \<and> (\<forall>s. s \<noteq> CONST' \<longrightarrow> sections buf s = sections (sf g) s)
     \<and> indent (sections buf CONST') = indent (sections (sf g) CONST')
     \<and> lines (sections buf CONST') = lines (sections (sf g) CONST')
          @ [concat (replicate (indent (sections (sf g) CONST')) one_indent_level)
             @ ''enum '' @ name @ '' = '' @ v @ '';'']
     \<and> (\<exists>p segs. strVal = render c_suffix p segs \<and> pieces_ok p segs)
     \<and> (\<forall>p segs. strVal = render c_suffix p segs \<and> pieces_ok p segs
            \<longrightarrow> v = render d_suffix p segs)
     \<and> (\<not> occurs ''0U'' strVal \<longrightarrow> v = strVal)"
proof -
  define v where "v = replace ''0U'' ''0u'' (replace ''0ULL'' ''0uL'' strVal)"
  define buf where "buf = (sf g)\<lparr>sect := CONST', sections := (sections (sf g))
      (CONST' := (sections (sf g) CONST')\<lparr>lines := lines (sections (sf g) CONST')
          @ [concat (replicate (indent (sections (sf g) CONST')) one_indent_level)
             @ ''enum '' @ name @ '' = '' @ v @ '';'']\<rparr>)\<rparr>"
  have run: "genEnum enumToValue g enuminfo name = Inr (g\<lparr>sf := buf\<rparr>)"
    using assms
    by (simp add: genEnum_def with_sf_def sf_call_def set_section_def section_of_def Let_def
        buf_def v_def del: pyformat.simps add: pyformat_enum_const)
  have all: "v = render d_suffix p segs"
    if "strVal = render c_suffix p segs \<and> pieces_ok p segs" for p segs
    using that replace_suffixes_render [of p segs] by (simp add: v_def)
  have none: "v = strVal" if "\<not> occurs ''0U'' strVal"
  proof -
    from that have "pieces_ok strVal []" "strVal = render c_suffix strVal []"
      by (simp_all add: pieces_ok_def render_def)
    with all [of strVal "[]"] show ?thesis
      by (simp add: render_def)
  qed
  from decompose_literal [of strVal]
  have ex: "\<exists>p segs. strVal = render c_suffix p segs \<and> pieces_ok p segs" .
  have others: "\<forall>s. s \<noteq> CONST' \<longrightarrow> sections buf s = sections (sf g) s"
    by (simp add: buf_def)
  have depth: "indent (sections buf CONST') = indent (sections (sf g) CONST')"
    by (simp add: buf_def)
  have line: "lines (sections buf CONST') = lines (sections (sf g) CONST')
          @ [concat (replicate (indent (sections (sf g) CONST')) one_indent_level)
             @ ''enum '' @ name @ '' = '' @ v @ '';'']"
    by (simp add: buf_def)
  from run others depth line ex all none show ?thesis
    by blast
qed

theorem C7_genEnum_rewrites_zero_suffix_witness:
  "map_sum id (\<lambda>g. lines (sections (sf g) CONST'))
     (genEnum value_attr (DGenerator_init None) (enum_elem ''VK_BOTH'' ''(~0U) - (~0ULL)'')
        ''VK_BOTH'')
   = Inr [''enum VK_BOTH = (~0u) - (~0uL);'']"
proof -
  have h: "snd (value_attr (enum_elem ''VK_BOTH'' ''(~0U) - (~0ULL)'') False)
      = Some ''(~0U) - (~0ULL)''"
    by (simp add: value_attr_def enum_elem_def get_attr_def)
  have d: "''(~0U) - (~0ULL)'' = render c_suffix ''(~'' [(Suffix32, '') - (~''), (Suffix64, '')'')]
      \<and> pieces_ok ''(~'' [(Suffix32, '') - (~''), (Suffix64, '')'')]"
    by (simp add: render_def pieces_ok_def)
  from C7_genEnum_rewrites_zero_suffix [where enumToValue = value_attr
      and enuminfo = "enum_elem ''VK_BOTH'' ''(~0U) - (~0ULL)''" and strVal = "''(~0U) - (~0ULL)''"
      and g = "DGenerator_init None" and name = "''VK_BOTH''", OF h]
  obtain v buf where
    run: "genEnum value_attr (DGenerator_init None) (enum_elem ''VK_BOTH'' ''(~0U) - (~0ULL)'')
            ''VK_BOTH'' = Inr ((DGenerator_init None)\<lparr>sf := buf\<rparr>)"
    and l: "lines (sections buf CONST') = lines (sections (sf (DGenerator_init None)) CONST')
          @ [concat (replicate (indent (sections (sf (DGenerator_init None)) CONST')) one_indent_level)
             @ ''enum '' @ ''VK_BOTH'' @ '' = '' @ v @ '';'']"
    and a: "\<forall>p segs. ''(~0U) - (~0ULL)'' = render c_suffix p segs \<and> pieces_ok p segs
            \<longrightarrow> v = render d_suffix p segs"
    by blast
  from a d have "v = render d_suffix ''(~'' [(Suffix32, '') - (~''), (Suffix64, '')'')]"
    by blast
  then have "v = ''(~0u) - (~0uL)''"
    by (simp add: render_def)
  with run l show ?thesis
    by (simp add: DGenerator_init_def SourceFile_init_def)
qed

text \<open>
  C7, as the specification states it, asks for the suffix to be rewritten whatever digits precede it.
  The literal \<open>1U\<close> is emitted unchanged.
\<close>

theorem C7_genEnum_keeps_suffix_after_one:
  "genEnum value_attr (DGenerator_init None) (enum_elem ''VK_MAX'' ''1U'') ''VK_MAX''
   = Inr ((DGenerator_init None)\<lparr>sf := SourceFile_init\<lparr>sect := CONST',
        sections := (sections SourceFile_init)
          (CONST' := \<lparr>lines = [''enum VK_MAX = 1U;''], indent = 0\<rparr>)\<rparr>\<rparr>)"
  by (simp add: genEnum_def value_attr_def enum_elem_def get_attr_def with_sf_def sf_call_def
      set_section_def section_of_def DGenerator_init_def SourceFile_init_def)

subsection \<open>The type rewriter\<close>

lemma rmatch_lits:
  "rmatch (lits p @ rs) s = (if prefix p s then rmatch rs (drop (length p) s) else None)"
proof (induction p arbitrary: s)
  case Nil
  then show ?case by (simp add: lits_def)
next
  case (Cons c p)
  then show ?case
    by (cases s) (auto simp: lits_def)
qed

lemma first_down_skip:
  "(\<And>j. n < j \<Longrightarrow> j \<le> n + d \<Longrightarrow> f j = None) \<Longrightarrow> first_down f (n + d) = first_down f n"
  by (induction d) simp_all

lemma first_down_hit: "f n = Some r \<Longrightarrow> first_down f n = Some r"
  by (cases n) simp_all

lemma accepts_eta [simp]:
  "accepts Space = isspace" "accepts Dot = (\<lambda>x. x \<noteq> CHR 0x0A)"
  by (rule ext, simp)+

lemma takeWhile_space_type_token:
  "X \<noteq> [] \<Longrightarrow> \<not> isspace (hd X) \<Longrightarrow> takeWhile isspace (X @ ys) = []"
  by (cases X) simp_all

lemma after_const_space:
  assumes "X \<noteq> []" "\<not> isspace (hd X)"
  shows "rmatch (Rep1 Space # rs) (CHR '' '' # X @ ys) = rmatch rs (X @ ys)"
proof -
  have "isspace CHR '' ''"
    by (simp add: isspace_def)
  then have "length (takeWhile (accepts Space) (CHR '' '' # X @ ys)) = Suc 0"
    using takeWhile_space_type_token [OF assms] by simp
  then show ?thesis
    by (simp split: option.splits)
qed

lemma group_then_suffix:
  assumes "X \<noteq> []" "CHR 0x0A \<notin> set X" "CHR 0x0A \<notin> set ys"
    and hit: "rmatch rs ys \<noteq> None"
    and miss: "\<And>i. 0 < i \<Longrightarrow> i \<le> length ys \<Longrightarrow> rmatch rs (drop i ys) = None"
  shows "rmatch (Group1 Dot # rs) (X @ ys) = Some X"
proof -
  let ?f = "\<lambda>k. if k = 0 then None
     else (case rmatch rs (drop k (X @ ys)) of None \<Rightarrow> None | Some _ \<Rightarrow> Some (take k (X @ ys)))"
  have all: "takeWhile (accepts Dot) (X @ ys) = X @ ys"
    using assms(2,3) by auto
  have "?f j = None" if "length X < j" "j \<le> length X + length ys" for j
  proof -
    from that obtain i where "j = length X + i" "0 < i" "i \<le> length ys"
      by (metis add_diff_inverse_nat add_le_cancel_left less_imp_le_nat not_less zero_less_diff)
    with miss [of i] show ?thesis by simp
  qed
  then have "first_down ?f (length X + length ys) = first_down ?f (length X)"
    by (rule first_down_skip)
  moreover have "?f (length X) = Some X"
    using assms(1) hit by (auto split: option.splits)
  ultimately have "first_down ?f (length X + length ys) = Some X"
    by (simp add: first_down_hit)
  moreover have "rmatch (Group1 Dot # rs) (X @ ys)
      = first_down ?f (length (takeWhile (accepts Dot) (X @ ys)))"
    by (simp only: rmatch.simps item.case)
  ultimately show ?thesis
    by (simp only: all length_append)
qed

lemma single_const_match:
  assumes "X \<noteq> []" "\<not> isspace (hd X)" "CHR 0x0A \<notin> set X"
  shows "rmatch re_single_const (''const '' @ X @ ''*'') = Some X"
proof -
  have "rmatch [One (Lit CHR ''*''), Rep0 Space, Eos] (drop i ''*'') = None"
    if "0 < i" "i \<le> length ''*''" for i
    using that by simp
  then have "rmatch [Group1 Dot, One (Lit CHR ''*''), Rep0 Space, Eos] (X @ ''*'') = Some X"
    using assms by (intro group_then_suffix) simp_all
  then have "rmatch [Rep1 Space, Group1 Dot, One (Lit CHR ''*''), Rep0 Space, Eos]
      (CHR '' '' # X @ ''*'') = Some X"
    using after_const_space [OF assms(1,2)] by simp
  then show ?thesis
    unfolding re_single_const_def by (simp add: rmatch_lits)
qed

lemma double_const_tail:
  "rmatch (One (Lit CHR ''*'') # Rep1 Space # lits ''const*'' @ [Rep0 Space, Eos]) ''* const*'' \<noteq> None"
  "0 < i \<Longrightarrow> i \<le> length ''* const*'' \<Longrightarrow>
     rmatch (One (Lit CHR ''*'') # Rep1 Space # lits ''const*'' @ [Rep0 Space, Eos])
       (drop i ''* const*'') = None"
proof -
  show "rmatch (One (Lit CHR ''*'') # Rep1 Space # lits ''const*'' @ [Rep0 Space, Eos]) ''* const*'' \<noteq> None"
    by (simp add: isspace_def lits_def)
  assume "0 < i" "i \<le> length ''* const*''"
  then consider "i = 1" | "i = 2" | "i = 3" | "i = 4" | "i = 5" | "i = 6" | "i = 7" | "i = 8"
    by (simp add: eval_nat_numeral) arith
  then show "rmatch (One (Lit CHR ''*'') # Rep1 Space # lits ''const*'' @ [Rep0 Space, Eos])
       (drop i ''* const*'') = None"
    by cases (simp_all add: isspace_def lits_def)
qed

lemma double_const_match:
  assumes "X \<noteq> []" "\<not> isspace (hd X)" "CHR 0x0A \<notin> set X"
  shows "rmatch re_double_const (''const '' @ X @ ''* const*'') = Some X"
proof -
  have "rmatch (Group1 Dot # One (Lit CHR ''*'') # Rep1 Space # lits ''const*'' @ [Rep0 Space, Eos])
      (X @ ''* const*'') = Some X"
    using assms double_const_tail by (intro group_then_suffix) simp_all
  then have "rmatch (Rep1 Space # Group1 Dot # One (Lit CHR ''*'') # Rep1 Space
      # lits ''const*'' @ [Rep0 Space, Eos]) (CHR '' '' # X @ ''* const*'') = Some X"
    using after_const_space [OF assms(1,2)] by simp
  then show ?thesis
    unfolding re_double_const_def by (simp add: rmatch_lits)
qed

lemma no_const_no_match:
  assumes "\<not> prefix ''const'' typ"
  shows "rmatch re_double_const typ = None" "rmatch re_single_const typ = None"
  using assms unfolding re_double_const_def re_single_const_def
  by (simp_all add: rmatch_lits)

lemma first_down_None: "(\<And>k. k \<le> n \<Longrightarrow> f k = None) \<Longrightarrow> first_down f n = None"
  by (induction n) simp_all

lemma double_const_no_star:
  assumes "X \<noteq> []" "\<not> isspace (hd X)" "CHR ''*'' \<notin> set X"
  shows "rmatch re_double_const (''const '' @ X @ ''*'') = None"
proof -
  let ?rs = "One (Lit CHR ''*'') # Rep1 Space # lits ''const*'' @ [Rep0 Space, Eos]"
  have tail: "rmatch ?rs (drop k (X @ ''*'')) = None" for k
  proof (cases "k < length X")
    case True
    then have "drop k (X @ ''*'') = X ! k # drop (Suc k) X @ ''*''"
      by (simp add: Cons_nth_drop_Suc)
    moreover have "X ! k \<noteq> CHR ''*''"
      using True assms(3) by (metis nth_mem)
    ultimately show ?thesis by simp
  next
    case False
    then consider "k = length X" | "length X < k" by linarith
    then show ?thesis by cases simp_all
  qed
  have "first_down (\<lambda>k. if k = 0 then None
       else (case rmatch ?rs (drop k (X @ ''*'')) of None \<Rightarrow> None | Some _ \<Rightarrow> Some (take k (X @ ''*''))))
     n = None" for n
    by (rule first_down_None) (simp only: tail option.case if_cancel)
  then have "rmatch (Group1 Dot # ?rs) (X @ ''*'') = None"
    by (simp only: rmatch.simps item.case)
  then have "rmatch (Rep1 Space # Group1 Dot # ?rs) (CHR '' '' # X @ ''*'') = None"
    using after_const_space [OF assms(1,2)] by simp
  then show ?thesis
    unfolding re_double_const_def by (simp add: rmatch_lits)
qed

lemma dropWhile_none: "\<forall>c\<in>set xs. \<not> P c \<Longrightarrow> dropWhile P xs = xs"
  by (cases xs) simp_all

lemma strip_type_name:
  assumes "type_name T"
  shows "strip T = T"
proof -
  have sp: "\<forall>c\<in>set T. \<not> isspace c"
    using assms by (simp add: type_name_def)
  then have "dropWhile isspace T = T"
    by (rule dropWhile_none)
  moreover have "dropWhile isspace (rev T) = rev T"
    using sp by (intro dropWhile_none) simp
  ultimately show ?thesis
    by (simp add: strip_def rstrip_def)
qed

lemma makePart_type_name: "type_name T \<Longrightarrow> makePart (Some T) = T"
proof -
  assume t: "type_name T"
  have "CHR '' '' \<notin> set T"
    using t by (auto simp: type_name_def isspace_def)
  then have "T \<noteq> p @ ''struct '' @ q" for p q
    by auto
  then have "replace ''struct '' [] T = T"
    by (intro replace_no_occurrence) simp_all
  moreover have "replace ''const'' ''const '' T = T"
    using t by (intro replace_not_occurs) (simp_all add: type_name_def)
  ultimately show ?thesis
    using strip_type_name [OF t] by (simp add: makePart_def noneStr_def)
qed

lemma makePart_fragments:
  "makePart (Some ''const '') = ''const ''"
  "makePart (Some ''* '') = ''*''"
  "makePart (Some ''* const* '') = ''* const *''"
  "makePart (Some '' '') = []"
  "makePart (Some []) = []"
  "makePart None = []"
  by (simp_all add: makePart_def noneStr_def strip_def rstrip_def isspace_def)

lemma first_unique:
  assumes "\<forall>x\<in>set xs. \<not> P x" "\<forall>y\<in>set ys. \<not> P y" "P a" "P b" "xs @ a # u = ys @ b # v"
  shows "xs = ys \<and> a = b \<and> u = v"
  using assms
proof (induction xs arbitrary: ys)
  case Nil
  then show ?case by (cases ys) auto
next
  case (Cons x xs)
  then show ?case by (cases ys) auto
qed

lemma no_const_star_across:
  assumes "\<forall>c\<in>set T. \<not> isspace c \<and> c \<noteq> CHR ''*''"
  shows "\<not> prefix ''const *'' (T @ CHR ''*'' # t)"
proof
  assume "prefix ''const *'' (T @ CHR ''*'' # t)"
  then obtain r where "T @ CHR ''*'' # t = ''const *'' @ r"
    by (rule prefixE)
  then have eq: "T @ CHR ''*'' # t = ''const'' @ CHR '' '' # CHR ''*'' # r"
    by simp
  have a: "\<forall>x\<in>set T. \<not> (isspace x \<or> x = CHR ''*'')"
    using assms by simp
  have b: "\<forall>y\<in>set ''const''. \<not> (isspace y \<or> y = CHR ''*'')"
    by (simp add: isspace_def)
  have c: "isspace CHR ''*'' \<or> CHR ''*'' = CHR ''*''"
    by simp
  have d: "isspace CHR '' '' \<or> CHR '' '' = CHR ''*''"
    by (simp add: isspace_def)
  from first_unique [of T "\<lambda>x. isspace x \<or> x = CHR ''*''", OF a b c d eq]
  have "CHR ''*'' = CHR '' ''"
    by (rule conjunct1 [OF conjunct2])
  then show False by simp
qed

lemma replace_const_star_through:
  assumes "\<forall>c\<in>set T. \<not> isspace c \<and> c \<noteq> CHR ''*''"
  shows "replace ''const *'' new (T @ CHR ''*'' # t) = T @ replace ''const *'' new (CHR ''*'' # t)"
  using assms
proof (induction T)
  case Nil
  then show ?case by simp
next
  case (Cons c T)
  have "\<not> prefix ''const *'' ((c # T) @ CHR ''*'' # t)"
    using Cons.prems by (rule no_const_star_across)
  then have np: "\<not> prefix ''const *'' (c # (T @ CHR ''*'' # t))"
    by simp
  have ne: "''const *'' \<noteq> []"
    by simp
  have "replace ''const *'' new (c # (T @ CHR ''*'' # t))
      = c # replace ''const *'' new (T @ CHR ''*'' # t)"
    by (rule replace_Cons_skip [OF ne np])
  with Cons show ?case
    by (simp only: append_Cons) simp
qed

lemma replace_const_star_literal:
  "\<not> prefix ''*'' Y \<Longrightarrow> replace ''const *'' new (''const '' @ Y) = ''const '' @ replace ''const *'' new Y"
  by simp

lemma replace_const_star_after_const:
  assumes "type_name T"
  shows "replace ''const *'' new (''const '' @ T @ CHR ''*'' # t)
    = ''const '' @ T @ replace ''const *'' new (CHR ''*'' # t)"
proof -
  have "\<not> prefix ''*'' (T @ CHR ''*'' # t)"
    using assms by (cases T) (auto simp: type_name_def)
  then have "replace ''const *'' new (''const '' @ T @ CHR ''*'' # t)
      = ''const '' @ replace ''const *'' new (T @ CHR ''*'' # t)"
    by (rule replace_const_star_literal)
  moreover have "\<forall>c\<in>set T. \<not> isspace c \<and> c \<noteq> CHR ''*''"
    using assms by (simp add: type_name_def)
  ultimately show ?thesis
    by (simp only: replace_const_star_through)
qed

lemma type_name_token: "type_name T \<Longrightarrow> T \<noteq> [] \<and> \<not> isspace (hd T) \<and> CHR 0x0A \<notin> set T \<and> CHR ''*'' \<notin> set T"
  by (cases T) (auto simp: type_name_def isspace_def)

lemma makeDParamType_const_pointer:
  assumes "type_name T"
  shows "makeDParamType (xml_qualified_param ''const '' T ''* '' nm) = ''const('' @ T @ '')*''"
proof -
  have "makeDParamType_typeStr (xml_qualified_param ''const '' T ''* '' nm) = ''const '' @ T @ ''*''"
    by (simp add: makeDParamType_typeStr_def xml_qualified_param_def xml_leaf_def
        makePart_fragments makePart_type_name [OF assms])
  moreover have "replace ''const *'' ''const*'' (''const '' @ T @ ''*'') = ''const '' @ T @ ''*''"
    using replace_const_star_after_const [OF assms, of "''const*''" "[]"] by simp
  moreover have "convertDTypeConst (''const '' @ T @ ''*'') = ''const('' @ T @ '')*''"
    using type_name_token [OF assms] single_const_match [of T] double_const_no_star [of T]
    by (simp add: convertDTypeConst_def)
  ultimately show ?thesis
    by (simp only: makeDParamType_def)
qed

lemma makeDParamType_const_pointer_pointer:
  assumes "type_name T"
  shows "makeDParamType (xml_qualified_param ''const '' T ''* const* '' nm) = ''const('' @ T @ ''*)*''"
proof -
  have "makeDParamType_typeStr (xml_qualified_param ''const '' T ''* const* '' nm)
      = ''const '' @ T @ ''* const *''"
    by (simp add: makeDParamType_typeStr_def xml_qualified_param_def xml_leaf_def
        makePart_fragments makePart_type_name [OF assms])
  moreover have "replace ''const *'' ''const*'' (''const '' @ T @ ''* const *'')
      = ''const '' @ T @ ''* const*''"
    using replace_const_star_after_const [OF assms, of "''const*''" "'' const *''"] by simp
  moreover have "convertDTypeConst (''const '' @ T @ ''* const*'') = ''const('' @ T @ ''*)*''"
    using type_name_token [OF assms] double_const_match [of T]
    by (simp add: convertDTypeConst_def)
  ultimately show ?thesis
    by (simp only: makeDParamType_def)
qed

lemma type_name_no_const_prefix:
  assumes "type_name T"
  shows "\<not> prefix ''const'' T" "\<not> prefix ''const'' (T @ ''*'')"
proof -
  show a: "\<not> prefix ''const'' T"
  proof
    assume "prefix ''const'' T"
    then obtain q where "T = [] @ ''const'' @ q"
      by (auto simp: prefix_def)
    then have "occurs ''const'' T"
      unfolding occurs_iff by blast
    with assms show False by (simp add: type_name_def)
  qed
  show "\<not> prefix ''const'' (T @ ''*'')"
  proof
    assume "prefix ''const'' (T @ ''*'')"
    then obtain us where us: "''const'' = T @ us" "prefix us ''*''"
      using a by (auto simp: prefix_append)
    then have "us = [] \<or> us = ''*''"
      by (cases us) auto
    with us show False
      using a by (auto simp: append_eq_Cons_conv Cons_eq_append_conv)
  qed
qed

lemma makeDParamType_plain:
  assumes "type_name T"
  shows "makeDParamType (xml_param T nm) = T"
    and "makeDParamType (xml_qualified_param [] T ''* '' nm) = T @ ''*''"
proof -
  have chars: "\<forall>c\<in>set T. \<not> isspace c \<and> c \<noteq> CHR ''*''"
    using assms by (simp add: type_name_def)
  have "makeDParamType_typeStr (xml_param T nm) = T"
    by (simp add: makeDParamType_typeStr_def xml_param_def xml_leaf_def
        makePart_fragments makePart_type_name [OF assms])
  moreover have "replace ''const *'' ''const*'' T = T"
  proof (rule replace_no_occurrence)
    show "''const *'' \<noteq> []" by simp
    have "CHR '' '' \<notin> set T"
      using chars by (auto simp: isspace_def)
    then show "T \<noteq> p @ ''const *'' @ q" for p q
      by auto
  qed
  moreover have "convertDTypeConst T = T"
    using type_name_no_const_prefix(1) [OF assms] no_const_no_match [of T]
    by (simp add: convertDTypeConst_def)
  ultimately show "makeDParamType (xml_param T nm) = T"
    by (simp only: makeDParamType_def)
  have "makeDParamType_typeStr (xml_qualified_param [] T ''* '' nm) = T @ ''*''"
    by (simp add: makeDParamType_typeStr_def xml_qualified_param_def xml_leaf_def
        makePart_fragments makePart_type_name [OF assms])
  moreover have "replace ''const *'' ''const*'' (T @ ''*'') = T @ ''*''"
    using replace_const_star_through [OF chars, of "''const*''" "[]"] by simp
  moreover have "convertDTypeConst (T @ ''*'') = T @ ''*''"
    using type_name_no_const_prefix(2) [OF assms] no_const_no_match [of "T @ ''*''"]
    by (simp add: convertDTypeConst_def)
  ultimately show "makeDParamType (xml_qualified_param [] T ''* '' nm) = T @ ''*''"
    by (simp only: makeDParamType_def)
qed

text \<open>
  C5, as the code has it. Let \<open>T\<close> be a type name without whitespace, without \<open>*\<close> and in
  which \<open>const\<close> does not occur. On an element written as the registry writes it, the
  rewriter \<open>makeDParamType\<close> turns \<open>const T*\<close> into \<open>const(T)*\<close> and \<open>const T* const*\<close>
  into \<open>const(T*)*\<close>, and returns \<open>T\<close> and \<open>T*\<close> unchanged. Its last step
  \<open>convertDTypeConst\<close>, applied to a normalised text, turns \<open>const X*\<close> into \<open>const(X)*\<close>
  unless the double-indirection pattern matches, which is tried first, and
  \<open>const X* const*\<close> into \<open>const(X*)*\<close>, for every \<open>X\<close> that is not empty, does not start
  with whitespace and holds no newline; it returns every text that does not start with
  \<open>const\<close> unchanged.
\<close>

theorem C5_makeDParamType_rewrites_type_names:
  assumes "type_name T"
  shows "makeDParamType (xml_qualified_param ''const '' T ''* '' nm) = ''const('' @ T @ '')*''
     \<and> makeDParamType (xml_qualified_param ''const '' T ''* const* '' nm) = ''const('' @ T @ ''*)*''
     \<and> makeDParamType (xml_param T nm) = T
     \<and> makeDParamType (xml_qualified_param [] T ''* '' nm) = T @ ''*''
     \<and> (\<forall>X. X \<noteq> [] \<and> \<not> isspace (hd X) \<and> CHR 0x0A \<notin> set X \<longrightarrow>
           (rmatch re_double_const (''const '' @ X @ ''*'') = None
              \<longrightarrow> convertDTypeConst (''const '' @ X @ ''*'') = ''const('' @ X @ '')*'')
         \<and> convertDTypeConst (''const '' @ X @ ''* const*'') = ''const('' @ X @ ''*)*'')
     \<and> (\<forall>typ. \<not> prefix ''const'' typ \<longrightarrow> convertDTypeConst typ = typ)"
proof -
  have step: "(rmatch re_double_const (''const '' @ X @ ''*'') = None
              \<longrightarrow> convertDTypeConst (''const '' @ X @ ''*'') = ''const('' @ X @ '')*'')
         \<and> convertDTypeConst (''const '' @ X @ ''* const*'') = ''const('' @ X @ ''*)*''"
    if "X \<noteq> [] \<and> \<not> isspace (hd X) \<and> CHR 0x0A \<notin> set X" for X
    using that single_const_match [of X] double_const_match [of X]
    by (simp add: convertDTypeConst_def)
  have keep: "convertDTypeConst t = t" if "\<not> prefix ''const'' t" for t
    using that no_const_no_match [of t] by (simp add: convertDTypeConst_def)
  from step keep makeDParamType_const_pointer [OF assms] makeDParamType_const_pointer_pointer [OF assms]
    makeDParamType_plain [OF assms]
  show ?thesis by blast
qed

theorem C5_makeDParamType_rewrites_type_names_witness:
  "makeDParamType (xml_qualified_param ''const '' ''char'' ''* '' ''pName'') = ''const(char)*''
   \<and> makeDParamType (xml_qualified_param ''const '' ''char'' ''* const* '' ''ppNames'')
       = ''const(char*)*''
   \<and> makeDParamType (xml_param ''char'' ''c'') = ''char''
   \<and> makeDParamType (xml_qualified_param [] ''char'' ''* '' ''s'') = ''char*''
   \<and> convertDTypeConst ''const char**'' = ''const(char*)*''
   \<and> convertDTypeConst ''void*'' = ''void*''"
proof -
  have t: "type_name ''char''"
    by (simp add: type_name_def isspace_def)
  have x: "''char*'' \<noteq> [] \<and> \<not> isspace (hd ''char*'') \<and> CHR 0x0A \<notin> set ''char*''"
    by (simp add: isspace_def)
  have d: "rmatch re_double_const (''const '' @ ''char*'' @ ''*'') = None"
    by (simp add: re_double_const_def lits_def isspace_def)
  have p: "\<not> prefix ''const'' ''void*''"
    by simp
  note c5 = C5_makeDParamType_rewrites_type_names [OF t]
  from c5 [of "''pName''"] have 1:
    "makeDParamType (xml_qualified_param ''const '' ''char'' ''* '' ''pName'') = ''const(char)*''"
    by simp
  from c5 [of "''ppNames''"] have 2:
    "makeDParamType (xml_qualified_param ''const '' ''char'' ''* const* '' ''ppNames'')
       = ''const(char*)*''"
    by simp
  from c5 [of "''c''"] have 3: "makeDParamType (xml_param ''char'' ''c'') = ''char''"
    by simp
  from c5 [of "''s''"] have 4: "makeDParamType (xml_qualified_param [] ''char'' ''* '' ''s'') = ''char*''"
    by simp
  from c5 [of "''s''"] x d have 5: "convertDTypeConst ''const char**'' = ''const(char*)*''"
    by (metis append.simps append_assoc)
  from c5 [of "''s''"] p have 6: "convertDTypeConst ''void*'' = ''void*''"
    by blast
  from 1 2 3 4 5 6 show ?thesis by blast
qed

text \<open>
  C5, as the specification states it, holds for every input of the form \<open>const X*\<close> or
  \<open>const X* const*\<close>. With blanks before the stars the element \<open>const char * const * p\<close>
  is rewritten to \<open>const(char* const  )*\<close>, and with the type name \<open>constFoo\<close> the element
  \<open>const constFoo* p\<close> is rewritten to \<open>const(const Foo)*\<close>.
\<close>

theorem C5_makeDParamType_blanks_and_const_in_name:
  "makeDParamType (xml_qualified_param ''const '' ''char'' '' * const * '' ''p'')
     = ''const(char* const  )*''
   \<and> makeDParamType (xml_qualified_param ''const '' ''constFoo'' ''* '' ''p'')
     = ''const(const Foo)*''"
proof -
  have a: "makeDParamType_typeStr (xml_qualified_param ''const '' ''char'' '' * const * '' ''p'')
      = ''const char* const  *''"
    by (simp add: makeDParamType_typeStr_def xml_qualified_param_def xml_leaf_def makePart_def
        noneStr_def strip_def rstrip_def isspace_def)
  have b: "makeDParamType_typeStr (xml_qualified_param ''const '' ''constFoo'' ''* '' ''p'')
      = ''const const Foo*''"
    by (simp add: makeDParamType_typeStr_def xml_qualified_param_def xml_leaf_def makePart_def
        noneStr_def strip_def rstrip_def isspace_def)
  have c: "convertDTypeConst (replace ''const *'' ''const*'' ''const char* const  *'')
      = ''const(char* const  )*''"
    by (simp add: convertDTypeConst_def re_double_const_def re_single_const_def lits_def
        isspace_def)
  have d: "convertDTypeConst (replace ''const *'' ''const*'' ''const const Foo*'')
      = ''const(const Foo)*''"
    by (simp add: convertDTypeConst_def re_double_const_def re_single_const_def lits_def
        isspace_def)
  show ?thesis
    by (simp only: makeDParamType_def a b c d)
qed

subsection \<open>Runs on the section buffer\<close>

lemma put_put [simp]: "put s d' ls' (put s d ls b) = put s d' (ls @ ls') b"
  by (simp add: put_def)

lemma put_proj [simp]:
  "sect (put s d ls b) = s"
  "lines (sections (put s d ls b) s) = lines (sections b s) @ ls"
  "indent (sections (put s d ls b) s) = d"
  "s' \<noteq> s \<Longrightarrow> sections (put s d ls b) s' = sections b s'"
  by (simp_all add: put_def)

lemma Section_eta: "\<lparr>lines = lines x, indent = indent x\<rparr> = (x::Section)"
  by (cases x) simp

lemma set_section_put: "set_section b s = put s (indent (sections b s)) [] b"
  by (simp add: set_section_def put_def Section_eta)

lemma sf_indent_put: "sf_indent (put s d ls b) = put s (Suc d) ls b"
  by (simp add: sf_indent_def put_def section_of_def)

lemma sf_unindent_put:
  "sf_unindent (put s d ls b) = (if d = 0 then Inl AssertionError else Inr (put s (d - 1) ls b))"
  by (simp add: sf_unindent_def put_def section_of_def)

lemma sf_call_put:
  "sf_call (put s d ls b) fmt args
     = bind_err (pyformat fmt args) (\<lambda>t. Inr (put s d (ls @ [indentation d @ t]) b))"
  by (cases "pyformat fmt args") (simp_all add: sf_call_def put_def section_of_def indentation_def)

lemma run_ops_append: "run_ops (xs @ ys) b = bind_err (run_ops xs b) (run_ops ys)"
proof (induction xs arbitrary: b)
  case Nil
  then show ?case by simp
next
  case (Cons x xs)
  then show ?case by (cases "run_op x b") simp_all
qed

lemma run_ops_Lines_put:
  assumes "\<And>x. x \<in> set xs \<Longrightarrow> pyformat (f x) (a x) = Inr (t x)"
  shows "run_ops (map (\<lambda>x. Line (f x) (a x)) xs) (put s d ls b)
           = Inr (put s d (ls @ map (\<lambda>x. indentation d @ t x) xs) b)"
  using assms
proof (induction xs arbitrary: ls)
  case Nil
  then show ?case by simp
next
  case (Cons x xs)
  then show ?case by (simp add: sf_call_put)
qed

lemma pyformat_literals:
  "pyformat [] [] = Inr []"
  "pyformat ''}'' [] = Inr ''}''"
  "pyformat ''extern(C) {'' [] = Inr ''extern(C) {''"
  "pyformat ''enum %s%s {'' [a, b] = Inr (''enum '' @ a @ b @ '' {'')"
  "pyformat ''%s%s = %s,'' [a, b, c] = Inr (a @ b @ '' = '' @ c @ '','')"
  "pyformat ''enum %s%s = %s.%s;'' [a, b, c, d] = Inr (''enum '' @ a @ b @ '' = '' @ c @ ''.'' @ d @ '';'')"
  "pyformat ''%s%s %s);'' [a, b, c] = Inr (a @ b @ '' '' @ c @ '');'')"
  "pyformat ''%s%s%s %s%s'' [a, b, c, d, e] = Inr (a @ b @ c @ '' '' @ d @ e)"
  by simp_all

subsection \<open>Enumerations\<close>

lemma longest_Cons: "longest (n # names) = max (length n) (longest names)"
proof -
  have "insert 0 (length ` set (n # names)) = insert (length n) (insert 0 (length ` set names))"
    by auto
  moreover have "Max (insert (length n) (insert 0 (length ` set names)))
      = max (length n) (Max (insert 0 (length ` set names)))"
    by (rule Max_insert) simp_all
  ultimately show ?thesis
    by (simp only: longest_def)
qed

lemma fold_max_longest:
  "fold (\<lambda>n m. max m (length n)) names m = max m (longest names)"
proof (induction names arbitrary: m)
  case Nil
  then show ?case by (simp add: longest_def)
next
  case (Cons n names)
  with longest_Cons [of n names] show ?case by (simp add: max.assoc)
qed

lemma length_le_longest: "n \<in> set names \<Longrightarrow> length n \<le> longest names"
  by (simp add: longest_def)

lemma length_pad_to: "length s \<le> w \<Longrightarrow> length (pad_to w s) = w"
  by (simp add: pad_to_def)

lemma genGroup_members_eq:
  assumes "map (\<lambda>e. get_attr e ''name'') elems = map Some names"
  shows "genGroup_members enumToValue elems m acc
    = Inr (max m (longest names), acc @ zip names (map (\<lambda>e. fst (enumToValue e True)) elems))"
  using assms
proof (induction elems arbitrary: names m acc)
  case Nil
  then show ?case by (simp add: longest_def)
next
  case (Cons e elems)
  then obtain n rest where n: "names = n # rest" "get_attr e ''name'' = Some n"
    "map (\<lambda>e. get_attr e ''name'') elems = map Some rest"
    by (cases names) auto
  with Cons.IH [OF n(3)] longest_Cons [of n rest] show ?case
    by (simp add: Let_def max.assoc)
qed

text \<open>
  C6. For an enumeration group whose members all have a name, \<open>genGroup\<close> appends to the
  enumerations section, and changes nothing else: the opening line, with the annotation
  \<open>: VkFlags\<close> exactly when the group name ends in \<open>FlagBits\<close>; one line per member of the
  schema, in the schema's order, with the name padded to the length of the longest name
  of the group; the closing line; one alias line \<open>enum member = Group.member;\<close> per member,
  padded alike; and an empty line.
\<close>

theorem C6_genGroup_block:
  assumes "map (\<lambda>e. get_attr e ''name'') (findall_children groupinfo ''enum'') = map Some names"
  shows "\<exists>buf. genGroup enumToValue g groupinfo name = Inr (g\<lparr>sf := buf\<rparr>)
     \<and> (\<forall>s. s \<noteq> ENUM \<longrightarrow> sections buf s = sections (sf g) s)
     \<and> indent (sections buf ENUM) = indent (sections (sf g) ENUM)
     \<and> lines (sections buf ENUM) = lines (sections (sf g) ENUM)
        @ [indentation (indent (sections (sf g) ENUM)) @ ''enum '' @ name
             @ (if suffix ''FlagBits'' name then '' : VkFlags'' else []) @ '' {'']
        @ map (\<lambda>(n, e). indentation (Suc (indent (sections (sf g) ENUM)))
                 @ pad_to (longest names) n @ '' = '' @ pystr_int (fst (enumToValue e True)) @ '','')
            (zip names (findall_children groupinfo ''enum''))
        @ [indentation (indent (sections (sf g) ENUM)) @ ''}'']
        @ map (\<lambda>n. indentation (indent (sections (sf g) ENUM))
                 @ ''enum '' @ pad_to (longest names) n @ '' = '' @ name @ ''.'' @ n @ '';'') names
        @ [indentation (indent (sections (sf g) ENUM))]
     \<and> (\<forall>n \<in> set names. length (pad_to (longest names) n) = longest names)"
proof -
  let ?elems = "findall_children groupinfo ''enum''"
  let ?d = "indent (sections (sf g) ENUM)"
  let ?w = "longest names"
  let ?members = "zip names (map (\<lambda>e. fst (enumToValue e True)) ?elems)"
  let ?rep = "if suffix ''FlagBits'' name then '' : VkFlags'' else []"
  let ?l1 = "\<lambda>m. fst m @ replicate (?w - length (fst m)) CHR '' '' @ '' = '' @ pystr_int (snd m) @ '',''"
  let ?l2 = "\<lambda>m. ''enum '' @ fst m @ replicate (?w - length (fst m)) CHR '' '' @ '' = '' @ name @ ''.'' @ fst m @ '';''"
  define buf where "buf = put ENUM ?d
     ([indentation ?d @ ''enum '' @ name @ ?rep @ '' {'']
      @ map (\<lambda>m. indentation (Suc ?d) @ ?l1 m) ?members
      @ [indentation ?d @ ''}'']
      @ map (\<lambda>m. indentation ?d @ ?l2 m) ?members
      @ [indentation ?d]) (sf g)"
  have len: "length names = length ?elems"
    using assms by (metis length_map)
  have members: "genGroup_members enumToValue ?elems 0 [] = Inr (?w, ?members)"
    using genGroup_members_eq [OF assms, of enumToValue 0 "[]"] by simp
  have r1: "run_ops (map (\<lambda>m. Line ''%s%s = %s,''
              [fst m, replicate (?w - length (fst m)) CHR '' '', pystr_int (snd m)]) ?members)
            (put ENUM d ls (sf g))
          = Inr (put ENUM d (ls @ map (\<lambda>m. indentation d @ ?l1 m) ?members) (sf g))" for d ls
    by (rule run_ops_Lines_put) (simp add: pyformat_literals del: pyformat.simps)
  have r2: "run_ops (map (\<lambda>m. Line ''enum %s%s = %s.%s;''
              [fst m, replicate (?w - length (fst m)) CHR '' '', name, fst m]) ?members)
            (put ENUM d ls (sf g))
          = Inr (put ENUM d (ls @ map (\<lambda>m. indentation d @ ?l2 m) ?members) (sf g))" for d ls
    by (rule run_ops_Lines_put) (simp add: pyformat_literals del: pyformat.simps)
  have run: "genGroup enumToValue g groupinfo name = Inr (g\<lparr>sf := buf\<rparr>)"
    unfolding genGroup_def Let_def members
    by (simp add: with_sf_def run_ops_append r1 r2 set_section_put sf_call_put sf_indent_put
        sf_unindent_put pyformat_literals buf_def del: pyformat.simps)
  have m1: "map (\<lambda>m. indentation (Suc ?d) @ ?l1 m) ?members
      = map (\<lambda>(n, e). indentation (Suc ?d) @ pad_to ?w n @ '' = ''
               @ pystr_int (fst (enumToValue e True)) @ '','') (zip names ?elems)"
    by (simp add: zip_map2 pad_to_def case_prod_unfold)
  have m2: "map (\<lambda>m. indentation ?d @ ?l2 m) ?members
      = map (\<lambda>n. indentation ?d @ ''enum '' @ pad_to ?w n @ '' = '' @ name @ ''.'' @ n @ '';'') names"
  proof -
    have "map fst ?members = names"
      using len by simp
    then have "map (\<lambda>n. indentation ?d @ ''enum '' @ pad_to ?w n @ '' = '' @ name @ ''.'' @ n @ '';'')
        (map fst ?members) = map (\<lambda>n. indentation ?d @ ''enum '' @ pad_to ?w n @ '' = '' @ name
          @ ''.'' @ n @ '';'') names"
      by simp
    then show ?thesis
      by (simp add: pad_to_def comp_def del: map_fst_zip)
  qed
  have pad: "\<forall>n \<in> set names. length (pad_to ?w n) = ?w"
    using length_le_longest length_pad_to by blast
  have others: "\<forall>s. s \<noteq> ENUM \<longrightarrow> sections buf s = sections (sf g) s"
    by (simp add: buf_def)
  have depth: "indent (sections buf ENUM) = ?d"
    by (simp add: buf_def)
  have "lines (sections buf ENUM) = lines (sections (sf g) ENUM)
        @ [indentation ?d @ ''enum '' @ name @ ?rep @ '' {'']
        @ map (\<lambda>m. indentation (Suc ?d) @ ?l1 m) ?members
        @ [indentation ?d @ ''}'']
        @ map (\<lambda>m. indentation ?d @ ?l2 m) ?members
        @ [indentation ?d]"
    by (simp only: buf_def put_proj)
  then have block: "lines (sections buf ENUM) = lines (sections (sf g) ENUM)
        @ [indentation ?d @ ''enum '' @ name @ ?rep @ '' {'']
        @ map (\<lambda>(n, e). indentation (Suc ?d) @ pad_to ?w n @ '' = ''
                 @ pystr_int (fst (enumToValue e True)) @ '','') (zip names ?elems)
        @ [indentation ?d @ ''}'']
        @ map (\<lambda>n. indentation ?d @ ''enum '' @ pad_to ?w n @ '' = '' @ name @ ''.'' @ n @ '';'') names
        @ [indentation ?d]"
    by (simp only: m1 m2)
  show ?thesis
    by (rule exI [of _ buf]) (intro conjI run others depth block pad)
qed
lemma digits_one_two: "pystr_int (Some 1) = ''1''" "pystr_int (Some 2) = ''2''"
  by code_simp+

theorem C6_genGroup_block_witness:
  "map_sum id (\<lambda>g. lines (sections (sf g) ENUM))
     (genGroup value_length (DGenerator_init None) VkFooFlagBits_group ''VkFooFlagBits'')
   = Inr [''enum VkFooFlagBits : VkFlags {'',
          ''    VK_FOO_A_BIT      = 1,'',
          ''    VK_FOO_LONGER_BIT = 2,'',
          ''}'',
          ''enum VK_FOO_A_BIT      = VkFooFlagBits.VK_FOO_A_BIT;'',
          ''enum VK_FOO_LONGER_BIT = VkFooFlagBits.VK_FOO_LONGER_BIT;'',
          []]"
proof -
  have e: "findall_children VkFooFlagBits_group ''enum''
      = [enum_elem ''VK_FOO_A_BIT'' ''1'', enum_elem ''VK_FOO_LONGER_BIT'' ''16'']"
    by (simp add: findall_children_def VkFooFlagBits_group_def enum_elem_def)
  have n: "map (\<lambda>e. get_attr e ''name'') (findall_children VkFooFlagBits_group ''enum'')
      = map Some [''VK_FOO_A_BIT'', ''VK_FOO_LONGER_BIT'']"
    by (simp add: e) (simp add: enum_elem_def get_attr_def)
  have v: "fst (value_length (enum_elem ''VK_FOO_A_BIT'' ''1'') True) = Some 1"
    "fst (value_length (enum_elem ''VK_FOO_LONGER_BIT'' ''16'') True) = Some 2"
    by (simp_all add: value_length_def enum_elem_def get_attr_def)
  have w: "longest [''VK_FOO_A_BIT'', ''VK_FOO_LONGER_BIT''] = 17"
    by (simp add: longest_def)
  have p: "pad_to 17 ''VK_FOO_A_BIT'' = ''VK_FOO_A_BIT     ''"
    "pad_to 17 ''VK_FOO_LONGER_BIT'' = ''VK_FOO_LONGER_BIT''"
    by (simp_all add: pad_to_def eval_nat_numeral)
  from C6_genGroup_block [OF n, of value_length "DGenerator_init None" "''VkFooFlagBits''"]
  obtain buf where
    "genGroup value_length (DGenerator_init None) VkFooFlagBits_group ''VkFooFlagBits''
       = Inr ((DGenerator_init None)\<lparr>sf := buf\<rparr>)"
    "lines (sections buf ENUM) = [''enum VkFooFlagBits : VkFlags {'',
          ''    VK_FOO_A_BIT      = 1,'',
          ''    VK_FOO_LONGER_BIT = 2,'',
          ''}'',
          ''enum VK_FOO_A_BIT      = VkFooFlagBits.VK_FOO_A_BIT;'',
          ''enum VK_FOO_LONGER_BIT = VkFooFlagBits.VK_FOO_LONGER_BIT;'',
          []]"
    by (auto simp: e v w p digits_one_two DGenerator_init_def SourceFile_init_def
        indentation_def one_indent_level_def suffix_def)
  then show ?thesis by simp
qed

subsection \<open>The finishing pass\<close>

lemma put_self: "put (sect b) (indent (section_of b)) [] b = b"
  by (simp add: put_def section_of_def Section_eta)

lemma pyformat_no_percent: "CHR ''%'' \<notin> set s \<Longrightarrow> pyformat s [] = Inr s"
  by (induction s "[]::string list" rule: pyformat.induct) auto

lemma fold_max_params:
  "fold (\<lambda>p maxLen. max maxLen (length (p_typeStr p))) ps 0 = longest (map p_typeStr ps)"
proof -
  have "fold (\<lambda>p maxLen. max maxLen (length (p_typeStr p))) ps 0
      = fold (\<lambda>n m. max m (length n)) (map p_typeStr ps) 0"
    by (simp add: fold_map comp_def)
  then show ?thesis
    by (simp add: fold_max_longest)
qed

lemma endFile_params_eq:
  "endFile_params fstLine maxLen n i lineSpace ps
   = map (\<lambda>(j, p). Line ''%s%s%s %s%s''
        [if j = i then lineSpace else replicate (length fstLine) CHR '' '', p_typeStr p,
         replicate (maxLen - length (p_typeStr p)) CHR '' '', pystr_opt (p_name p),
         if j = n - 1 then '');'' else '','']) (enumerate i ps)"
proof (induction ps arbitrary: i lineSpace)
  case Nil
  then show ?case by simp
next
  case (Cons p ps)
  have "j \<noteq> i" if "(j, q) \<in> set (enumerate (Suc i) ps)" for j q
    using that by (auto simp: in_set_enumerate_eq)
  then show ?case
    by (simp add: Cons.IH Let_def del: pyformat.simps) (auto simp: in_set_enumerate_eq)
qed

lemma run_endFile_params:
  "run_ops (endFile_params fstLine maxLen n 0 fstLine ps) (put s d ls b)
   = Inr (put s d (ls @ map (\<lambda>(j, p). indentation d
        @ (if j = 0 then fstLine else replicate (length fstLine) CHR '' '')
        @ pad_to maxLen (p_typeStr p) @ '' '' @ pystr_opt (p_name p)
        @ (if j = n - 1 then '');'' else '','')) (enumerate 0 ps)) b)"
proof -
  let ?a = "\<lambda>x. [if fst x = 0 then fstLine else replicate (length fstLine) CHR '' '',
      p_typeStr (snd x), replicate (maxLen - length (p_typeStr (snd x))) CHR '' '',
      pystr_opt (p_name (snd x)), if fst x = n - 1 then '');'' else '','']"
  let ?t = "\<lambda>x. (if fst x = 0 then fstLine else replicate (length fstLine) CHR '' '')
      @ p_typeStr (snd x) @ replicate (maxLen - length (p_typeStr (snd x))) CHR '' ''
      @ '' '' @ pystr_opt (p_name (snd x)) @ (if fst x = n - 1 then '');'' else '','')"
  have "run_ops (map (\<lambda>x. Line ''%s%s%s %s%s'' (?a x)) (enumerate 0 ps)) (put s d ls b)
      = Inr (put s d (ls @ map (\<lambda>x. indentation d @ ?t x) (enumerate 0 ps)) b)"
    by (rule run_ops_Lines_put) (simp add: pyformat_literals del: pyformat.simps)
  then show ?thesis
    by (simp add: endFile_params_eq case_prod_unfold pad_to_def del: pyformat.simps)
qed

lemma endFile_cmd_alt:
  "endFile_cmd c =
     (if length (c_params c) = 0 then [Line (alias_first_line c @ '');'') []]
      else if length (c_params c) = 1 then
        [Line ''%s%s %s);'' [alias_first_line c, p_typeStr (c_params c ! 0),
           pystr_opt (p_name (c_params c ! 0))]]
      else endFile_params (alias_first_line c) (longest (map p_typeStr (c_params c)))
             (length (c_params c)) 0 (alias_first_line c) (c_params c))"
  unfolding endFile_cmd_def alias_first_line_def [symmetric] Let_def fold_max_params
  by (rule refl)

lemma run_endFile_cmd:
  assumes "c_params c = [] \<longrightarrow> CHR ''%'' \<notin> set (c_name c) \<and> CHR ''%'' \<notin> set (pystr_opt (c_returnType c))"
  shows "run_ops (endFile_cmd c) (put s d ls b) = Inr (put s d (ls @ alias_lines d c) b)"
proof (cases "c_params c")
  case Nil
  with assms have "CHR ''%'' \<notin> set (alias_first_line c @ '');'')"
    by (simp add: alias_first_line_def)
  then have "pyformat (alias_first_line c @ '');'') [] = Inr (alias_first_line c @ '');'')"
    by (rule pyformat_no_percent)
  with Nil show ?thesis
    by (simp add: endFile_cmd_alt alias_lines_def sf_call_put del: pyformat.simps)
next
  case (Cons p ps)
  show ?thesis
  proof (cases ps)
    case Nil
    with Cons show ?thesis
      by (simp add: endFile_cmd_alt alias_lines_def sf_call_put pyformat_literals
          del: pyformat.simps)
  next
    case (Cons q qs)
    with \<open>c_params c = p # ps\<close> have ps: "c_params c = p # q # qs"
      by simp
    then have "run_ops (endFile_cmd c) (put s d ls b)
        = run_ops (endFile_params (alias_first_line c) (longest (map p_typeStr (c_params c)))
            (length (c_params c)) 0 (alias_first_line c) (c_params c)) (put s d ls b)"
      by (simp add: endFile_cmd_alt)
    also have "\<dots> = Inr (put s d (ls @ alias_lines d c) b)"
      by (simp only: run_endFile_params) (simp add: alias_lines_def ps)
    finally show ?thesis .
  qed
qed

lemma run_endFile_cmds:
  assumes "\<forall>c\<in>set cs. c_params c = []
     \<longrightarrow> CHR ''%'' \<notin> set (c_name c) \<and> CHR ''%'' \<notin> set (pystr_opt (c_returnType c))"
  shows "run_ops (concat (map endFile_cmd cs)) (put s d ls b)
     = Inr (put s d (ls @ concat (map (alias_lines d) cs)) b)"
  using assms
proof (induction cs arbitrary: ls)
  case Nil
  then show ?case by simp
next
  case (Cons c cs)
  then show ?case
    by (simp add: run_ops_append run_endFile_cmd)
qed

lemma alias_lines_shape:
  "length (alias_lines d c) = max 1 (length (c_params c))"
  "prefix (indentation d @ ''alias PFN_'' @ c_name c @ '' = '') (hd (alias_lines d c))"
proof -
  show "length (alias_lines d c) = max 1 (length (c_params c))"
    by (simp add: alias_lines_def split: list.splits)
  have "prefix (''alias PFN_'' @ c_name c @ '' = '') (alias_first_line c @ rest)" for rest
    by (simp add: alias_first_line_def)
  then have "prefix (indentation d @ ''alias PFN_'' @ c_name c @ '' = '')
      (indentation d @ alias_first_line c @ rest)" for rest
    by (simp only: same_prefix_prefix)
  then show "prefix (indentation d @ ''alias PFN_'' @ c_name c @ '' = '') (hd (alias_lines d c))"
    by (simp add: alias_lines_def enumerate_eq_zip upt_conv_Cons split: list.splits
        del: upt_Suc)
qed

lemma endFile_run:
  assumes "0 < indent (sections (sf g) FUNCPTR)"
    and "\<forall>c\<in>set (cmds g). c_params c = []
           \<longrightarrow> CHR ''%'' \<notin> set (c_name c) \<and> CHR ''%'' \<notin> set (pystr_opt (c_returnType c))"
  shows "\<exists>buf. endFile g = Inr (g\<lparr>sf := buf\<rparr>, writeOut buf [])
     \<and> lines (sections buf CMD) = lines (sections (sf g) CMD)
          @ [indentation (indent (sections (sf g) CMD)) @ ''extern(C) {'']
          @ concat (map (alias_lines (Suc (indent (sections (sf g) CMD)))) (cmds g))
          @ [indentation (indent (sections (sf g) CMD)) @ ''}'']"
proof -
  let ?d = "indent (sections (sf g) CMD)"
  let ?f = "indent (sections (sf g) FUNCPTR)"
  define b1 where "b1 = put FUNCPTR (?f - 1) [indentation (?f - 1) @ ''}''] (sf g)"
  define buf where "buf = put CMD ?d ([indentation ?d @ ''extern(C) {'']
      @ concat (map (alias_lines (Suc ?d)) (cmds g)) @ [indentation ?d @ ''}'']) b1"
  have d: "indent (sections b1 CMD) = ?d"
    by (simp add: b1_def)
  have s1: "run_ops [SetSect FUNCPTR, Unindent, Line ''}'' []] (sf g) = Inr b1"
    using assms(1)
    by (simp add: set_section_put sf_unindent_put sf_call_put pyformat_literals b1_def
        del: pyformat.simps)
  have s2: "run_ops [SetSect CMD, Line ''extern(C) {'' [], Indent] b1
      = Inr (put CMD (Suc ?d) [indentation ?d @ ''extern(C) {''] b1)"
    by (simp add: set_section_put sf_call_put sf_indent_put pyformat_literals d
        del: pyformat.simps)
  have s3: "run_ops (concat (map endFile_cmd (cmds g)))
        (put CMD (Suc ?d) [indentation ?d @ ''extern(C) {''] b1)
      = Inr (put CMD (Suc ?d) ([indentation ?d @ ''extern(C) {'']
          @ concat (map (alias_lines (Suc ?d)) (cmds g))) b1)"
    using assms(2) by (rule run_endFile_cmds)
  have s4: "run_ops [Unindent, Line ''}'' []] (put CMD (Suc ?d) ls b1)
      = Inr (put CMD ?d (ls @ [indentation ?d @ ''}'']) b1)" for ls
    by (simp add: sf_unindent_put sf_call_put pyformat_literals del: pyformat.simps)
  have "run_ops ([SetSect FUNCPTR, Unindent, Line ''}'' []]
        @ [SetSect CMD, Line ''extern(C) {'' [], Indent]
        @ concat (map endFile_cmd (cmds g)) @ [Unindent, Line ''}'' []]) (sf g) = Inr buf"
    by (simp only: run_ops_append s1 s2 s3 s4 bind_err_simps buf_def append_assoc)
  then have run: "endFile g = Inr (g\<lparr>sf := buf\<rparr>, writeOut buf [])"
    by (simp add: endFile_def del: run_ops.simps)
  have block: "lines (sections buf CMD) = lines (sections (sf g) CMD)
          @ [indentation ?d @ ''extern(C) {'']
          @ concat (map (alias_lines (Suc ?d)) (cmds g))
          @ [indentation ?d @ ''}'']"
    by (simp add: buf_def b1_def)
  show ?thesis
    by (rule exI [of _ buf]) (intro conjI run block)
qed

lemma beginFile_opens_sections:
  "\<exists>buf. beginFile g = Inr (g\<lparr>sf := buf\<rparr>)
     \<and> indent (sections buf FUNCPTR) = 1
     \<and> indent (sections buf CMD) = 0
     \<and> lines (sections buf CMD) = [[], ''// Commands'', []]"
proof -
  have i: "indent (sections SourceFile_init s) = 0" "lines (sections SourceFile_init s) = []" for s
    by (simp_all add: SourceFile_init_def)
  have n: "indentation 0 = []"
    by (simp add: indentation_def)
  obtain buf where b: "run_ops (beginFile_ops g) SourceFile_init = Inr buf"
    and bi: "indent (sections buf FUNCPTR) = 1" "indent (sections buf CMD) = 0"
      "lines (sections buf CMD) = [[], ''// Commands'', []]"
    by (simp add: beginFile_ops_def initSect_def basicTypes_def set_section_put sf_call_put
        sf_indent_put sf_unindent_put i n)
  from b have "beginFile g = Inr (g\<lparr>sf := buf\<rparr>)"
    by (simp add: beginFile_def with_sf_def)
  with bi show ?thesis
    by blast
qed

text \<open>
  C4. Let the function-pointer section be open (as \<open>beginFile\<close> leaves it) and let the
  zero-parameter commands have names and return types without a percent sign, as
  identifiers do. Then \<open>endFile\<close> succeeds, prints the buffer, and has appended to the
  commands section the line \<open>extern(C) {\<close>, then for every recorded command, in the order
  of recording, its alias one level deeper, and the line \<open>}\<close>. The alias of a command
  starts with \<open>alias PFN_\<close> and the command's name; it is one closed line for no parameter,
  one line for one parameter, and one line per parameter otherwise, each after the first
  starting in the column where the opening line ends.
\<close>

theorem C4_endFile_one_alias_per_command:
  assumes "0 < indent (sections (sf g) FUNCPTR)"
    and "\<forall>c\<in>set (cmds g). c_params c = []
           \<longrightarrow> CHR ''%'' \<notin> set (c_name c) \<and> CHR ''%'' \<notin> set (pystr_opt (c_returnType c))"
  shows "\<exists>buf. endFile g = Inr (g\<lparr>sf := buf\<rparr>, writeOut buf [])
     \<and> lines (sections buf CMD) = lines (sections (sf g) CMD)
          @ [indentation (indent (sections (sf g) CMD)) @ ''extern(C) {'']
          @ concat (map (alias_lines (Suc (indent (sections (sf g) CMD)))) (cmds g))
          @ [indentation (indent (sections (sf g) CMD)) @ ''}'']
     \<and> (\<forall>c\<in>set (cmds g).
           length (alias_lines (Suc (indent (sections (sf g) CMD))) c) = max 1 (length (c_params c))
         \<and> prefix (indentation (Suc (indent (sections (sf g) CMD))) @ ''alias PFN_'' @ c_name c @ '' = '')
             (hd (alias_lines (Suc (indent (sections (sf g) CMD))) c)))"
  using endFile_run [OF assms] alias_lines_shape by blast

lemma alias_lines_examples:
  "alias_lines (Suc 0) vkA_cmd = [''    alias PFN_vkA = void function (int      a,'',
                                  ''                                   VkDevice b);'']"
  "alias_lines (Suc 0) vkB_cmd = [''    alias PFN_vkB = void function (VkCommandBuffer c,'',
                                  ''                                   x               d);'']"
  "alias_lines (Suc 0) vkC_cmd = [''    alias PFN_vkC = VkResult function ();'']"
  by (simp_all add: alias_lines_def vkA_cmd_def vkB_cmd_def vkC_cmd_def alias_first_line_def
      pystr_opt_def enumerate_eq_zip upt_conv_Cons pad_to_def longest_def indentation_def
      one_indent_level_def eval_nat_numeral del: upt_Suc)

theorem C4_endFile_one_alias_per_command_witness:
  "bind_err (beginFile (DGenerator_init None))
     (\<lambda>g. endFile_CMD_lines (g\<lparr>cmds := [vkA_cmd, vkB_cmd, vkC_cmd]\<rparr>))
   = Inr [[], ''// Commands'', [], ''extern(C) {'',
      ''    alias PFN_vkA = void function (int      a,'',
      ''                                   VkDevice b);'',
      ''    alias PFN_vkB = void function (VkCommandBuffer c,'',
      ''                                   x               d);'',
      ''    alias PFN_vkC = VkResult function ();'', ''}'']"
proof -
  from beginFile_opens_sections [of "DGenerator_init None"] obtain buf where
    bf: "beginFile (DGenerator_init None) = Inr ((DGenerator_init None)\<lparr>sf := buf\<rparr>)"
    and i: "indent (sections buf FUNCPTR) = 1" "indent (sections buf CMD) = 0"
      "lines (sections buf CMD) = [[], ''// Commands'', []]"
    by blast
  let ?g = "(DGenerator_init None)\<lparr>sf := buf, cmds := [vkA_cmd, vkB_cmd, vkC_cmd]\<rparr>"
  have h1: "0 < indent (sections (sf ?g) FUNCPTR)"
    by (simp add: i)
  have h2: "\<forall>c\<in>set (cmds ?g). c_params c = []
      \<longrightarrow> CHR ''%'' \<notin> set (c_name c) \<and> CHR ''%'' \<notin> set (pystr_opt (c_returnType c))"
    by (simp add: vkA_cmd_def vkB_cmd_def vkC_cmd_def pystr_opt_def)
  from C4_endFile_one_alias_per_command [OF h1 h2] obtain buf' where
    e: "endFile ?g = Inr (?g\<lparr>sf := buf'\<rparr>, writeOut buf' [])"
    and l: "lines (sections buf' CMD) = lines (sections (sf ?g) CMD)
          @ [indentation (indent (sections (sf ?g) CMD)) @ ''extern(C) {'']
          @ concat (map (alias_lines (Suc (indent (sections (sf ?g) CMD)))) (cmds ?g))
          @ [indentation (indent (sections (sf ?g) CMD)) @ ''}'']"
    by blast
  from l have "lines (sections buf' CMD) = [[], ''// Commands'', [], ''extern(C) {'',
      ''    alias PFN_vkA = void function (int      a,'',
      ''                                   VkDevice b);'',
      ''    alias PFN_vkB = void function (VkCommandBuffer c,'',
      ''                                   x               d);'',
      ''    alias PFN_vkC = VkResult function ();'', ''}'']"
    by (simp add: i alias_lines_examples indentation_def)
  with bf e show ?thesis
    by (simp add: endFile_CMD_lines_def)
qed

text \<open>
  C3, as the code has it. For a command with two or more parameters the finishing pass
  appends one line per parameter, and the width to which the parameter types are padded
  is the length of the longest parameter type of that command: no type of the command is
  longer, one of them is that long, and every padded type has that length.
\<close>

theorem C3_endFile_cmd_pads_to_longest_type_of_command:
  assumes "2 \<le> length (c_params cmd)"
  shows "\<exists>b'. run_ops (endFile_cmd cmd) b = Inr b'
     \<and> lines (section_of b') = lines (section_of b)
          @ map (\<lambda>(i, p). indentation (indent (section_of b))
                  @ (if i = 0 then alias_first_line cmd
                     else replicate (length (alias_first_line cmd)) CHR '' '')
                  @ pad_to (longest (map p_typeStr (c_params cmd))) (p_typeStr p)
                  @ '' '' @ pystr_opt (p_name p)
                  @ (if i = length (c_params cmd) - 1 then '');'' else '',''))
              (enumerate 0 (c_params cmd))
     \<and> (\<forall>p\<in>set (c_params cmd).
           length (p_typeStr p) \<le> longest (map p_typeStr (c_params cmd))
         \<and> length (pad_to (longest (map p_typeStr (c_params cmd))) (p_typeStr p))
             = longest (map p_typeStr (c_params cmd)))
     \<and> (\<exists>p\<in>set (c_params cmd). length (p_typeStr p) = longest (map p_typeStr (c_params cmd)))"
proof -
  let ?ps = "c_params cmd"
  let ?w = "longest (map p_typeStr ?ps)"
  from assms obtain p q qs where ps: "?ps = p # q # qs"
    by (cases ?ps; cases "tl ?ps") auto
  then have "c_params cmd = [] \<longrightarrow> CHR ''%'' \<notin> set (c_name cmd)
      \<and> CHR ''%'' \<notin> set (pystr_opt (c_returnType cmd))"
    by simp
  from run_endFile_cmd [OF this, of "sect b" "indent (section_of b)" "[]" b]
  have run: "run_ops (endFile_cmd cmd) b
      = Inr (put (sect b) (indent (section_of b)) (alias_lines (indent (section_of b)) cmd) b)"
    by (simp add: put_self)
  have block: "lines (section_of (put (sect b) (indent (section_of b))
        (alias_lines (indent (section_of b)) cmd) b))
      = lines (section_of b) @ alias_lines (indent (section_of b)) cmd"
    by (simp add: section_of_def)
  have le: "length (p_typeStr x) \<le> ?w" if "x \<in> set ?ps" for x
    using that by (intro length_le_longest) simp
  have "?w \<in> insert 0 (length ` set (map p_typeStr ?ps))"
    unfolding longest_def by (rule Max_in) simp_all
  then have attained: "\<exists>x\<in>set ?ps. length (p_typeStr x) = ?w"
    using le [of p] ps by auto
  show ?thesis
    by (rule exI [of _ "put (sect b) (indent (section_of b))
          (alias_lines (indent (section_of b)) cmd) b"])
       (use run block le attained in \<open>simp add: alias_lines_def ps length_pad_to\<close>)
qed

theorem C3_endFile_cmd_pads_to_longest_type_of_command_witness:
  "map_sum id (\<lambda>b. lines (section_of b))
     (run_ops (endFile_cmd vkA_cmd) (put CMD 1 [] SourceFile_init))
   = Inr [''    alias PFN_vkA = void function (int      a,'',
          ''                                   VkDevice b);'']"
proof -
  have "2 \<le> length (c_params vkA_cmd)"
    by (simp add: vkA_cmd_def)
  from C3_endFile_cmd_pads_to_longest_type_of_command [OF this, of "put CMD 1 [] SourceFile_init"]
  obtain b' where "run_ops (endFile_cmd vkA_cmd) (put CMD 1 [] SourceFile_init) = Inr b'"
    and "lines (section_of b') = [''    alias PFN_vkA = void function (int      a,'',
          ''                                   VkDevice b);'']"
    by (auto simp: section_of_def SourceFile_init_def vkA_cmd_def alias_first_line_def
        pystr_opt_def enumerate_eq_zip upt_conv_Cons pad_to_def longest_def indentation_def
        one_indent_level_def eval_nat_numeral simp del: upt_Suc)
  then show ?thesis by simp
qed

text \<open>
  C3, as the claim has it, takes the width from all parameters of all recorded commands.
  With the commands \<open>vkA(int a, VkDevice b)\<close> and \<open>vkB(VkCommandBuffer c, x d)\<close> recorded,
  the longest parameter type has 15 characters, and the type \<open>int\<close> of \<open>vkA\<close> is padded to
  8 characters, the length of \<open>VkDevice\<close>.
\<close>

theorem C3_endFile_pads_vkA_to_VkDevice:
  "endFile_CMD_lines (recorded [vkA_cmd, vkB_cmd])
   = Inr [''extern(C) {'',
      ''    alias PFN_vkA = void function (int      a,'',
      ''                                   VkDevice b);'',
      ''    alias PFN_vkB = void function (VkCommandBuffer c,'',
      ''                                   x               d);'', ''}'']
   \<and> longest (map p_typeStr (concat (map c_params [vkA_cmd, vkB_cmd]))) = 15"
proof -
  let ?g = "recorded [vkA_cmd, vkB_cmd]"
  have s: "sf ?g = put FUNCPTR 1 [''extern(C) {''] SourceFile_init" "cmds ?g = [vkA_cmd, vkB_cmd]"
    by (simp_all add: recorded_def DGenerator_init_def)
  have h1: "0 < indent (sections (sf ?g) FUNCPTR)"
    by (simp add: s)
  have h2: "\<forall>c\<in>set (cmds ?g). c_params c = []
      \<longrightarrow> CHR ''%'' \<notin> set (c_name c) \<and> CHR ''%'' \<notin> set (pystr_opt (c_returnType c))"
    unfolding s by (simp add: vkA_cmd_def vkB_cmd_def)
  from endFile_run [OF h1 h2] obtain buf where
    e: "endFile ?g = Inr (?g\<lparr>sf := buf\<rparr>, writeOut buf [])"
    and l: "lines (sections buf CMD) = lines (sections (sf ?g) CMD)
          @ [indentation (indent (sections (sf ?g) CMD)) @ ''extern(C) {'']
          @ concat (map (alias_lines (Suc (indent (sections (sf ?g) CMD)))) (cmds ?g))
          @ [indentation (indent (sections (sf ?g) CMD)) @ ''}'']"
    by blast
  from l have "lines (sections buf CMD) = [''extern(C) {'',
      ''    alias PFN_vkA = void function (int      a,'',
      ''                                   VkDevice b);'',
      ''    alias PFN_vkB = void function (VkCommandBuffer c,'',
      ''                                   x               d);'', ''}'']"
    by (simp add: s alias_lines_examples indentation_def SourceFile_init_def)
  with e have "endFile_CMD_lines ?g = Inr [''extern(C) {'',
      ''    alias PFN_vkA = void function (int      a,'',
      ''                                   VkDevice b);'',
      ''    alias PFN_vkB = void function (VkCommandBuffer c,'',
      ''                                   x               d);'', ''}'']"
    by (simp add: endFile_CMD_lines_def)
  moreover have "longest (map p_typeStr (concat (map c_params [vkA_cmd, vkB_cmd]))) = 15"
    by (simp add: longest_def vkA_cmd_def vkB_cmd_def)
  ultimately show ?thesis by simp
qed

end
